theory Spec2Isabelle
  imports Main "HOL-Library.Finite_Map"
begin

section \<open>Go values shared by the three programs\<close>

text \<open>
  The repository holds three programs: the RPC server (a depth-first traversal of a
  process table under one lock), a single-threaded recursive probe program, and an
  actor program in which every process handles probes from a channel.

  Go's \<^verbatim>\<open>int\<close> is modelled as \<^typ>\<open>int\<close>: the only arithmetic on it is the increment of
  message counters, which stay far below \<open>2 ^ 63\<close>.  A run-time panic is a value of
  type \<open>error\<close>; a function that can panic returns \<open>error + 'a\<close>.
\<close>

datatype error = IndexOutOfRange | NilDereference

text \<open>
  A \<^verbatim>\<open>map[int]bool\<close> and a \<^verbatim>\<open>map[int]int\<close>: reading a key that is absent gives the zero
  value of the element type.
\<close>

definition flag :: "(int \<rightharpoonup> bool) \<Rightarrow> int \<Rightarrow> bool" where
  "flag m k = (case m k of Some b \<Rightarrow> b | None \<Rightarrow> False)"

definition count :: "(int \<rightharpoonup> int) \<Rightarrow> int \<Rightarrow> int" where
  "count m k = (case m k of Some n \<Rightarrow> n | None \<Rightarrow> 0)"

text \<open>\<^verbatim>\<open>fmt.Sprintf("%d", n)\<close>: the decimal digits of an integer.\<close>

fun show_nat :: "nat \<Rightarrow> string" where
  "show_nat n =
     (if n < 10 then [''0123456789'' ! n]
      else show_nat (n div 10) @ [''0123456789'' ! (n mod 10)])"

definition show_int :: "int \<Rightarrow> string" where
  "show_int i = (if i < 0 then CHR ''-'' # show_nat (nat (- i)) else show_nat (nat i))"

section \<open>The RPC server\<close>

record Process =
  ID :: int
  Neighbors :: "int list"

record DeadlockService =
  processes :: "Process list"
  globalMessageCounter :: int

record DeadlockRequest =
  ProcessID :: int

record DeadlockResponse =
  Message :: string
  DeadlockStatus :: string
  MessageCounts :: "int \<rightharpoonup> int"
  TotalMessages :: int

record AddProcessRequest =
  req_ID :: int
  req_Neighbors :: "int list"

record AddProcessResponse =
  add_Message :: string

text \<open>
  The three objects that \<^verbatim>\<open>runDDFS\<close> mutates through its arguments: the map
  \<^verbatim>\<open>visited\<close>, the map \<^verbatim>\<open>messageCounts\<close> and the counter behind \<^verbatim>\<open>localCounter\<close>.
\<close>

record ddfs =
  visited :: "int \<rightharpoonup> bool"
  messageCounts :: "int \<rightharpoonup> int"
  localCounter :: int

text \<open>
  \<^verbatim>\<open>runDDFS\<close> marks the current process, then walks its neighbour list; the walk is
  \<open>runDDFS_loop\<close>.  Indexing the table outside its bounds panics (after the mark has
  been written).  The state returned is the state of the three objects at the return
  or at the panic.
\<close>

function runDDFS :: "Process list \<Rightarrow> int \<Rightarrow> int \<Rightarrow> ddfs \<Rightarrow> (error + bool) \<times> ddfs"
  and runDDFS_loop :: "Process list \<Rightarrow> int \<Rightarrow> int \<Rightarrow> int list \<Rightarrow> ddfs \<Rightarrow> (error + bool) \<times> ddfs"
where
  "runDDFS ps origin current st =
     (let st1 = st\<lparr>visited := (visited st)(current \<mapsto> True)\<rparr> in
      if current < 0 \<or> int (length ps) \<le> current then (Inl IndexOutOfRange, st1)
      else runDDFS_loop ps origin current (Neighbors (ps ! nat current)) st1)"
| "runDDFS_loop ps origin current [] st = (Inr False, st)"
| "runDDFS_loop ps origin current (neighbor # rest) st =
     (let st1 = st\<lparr>messageCounts := (messageCounts st)(origin \<mapsto> count (messageCounts st) origin + 1),
                    localCounter := localCounter st + 1\<rparr> in
      if neighbor = origin then (Inr True, st1)
      else if \<not> flag (visited st1) neighbor then
        (case runDDFS ps origin neighbor st1 of
           (Inr False, st2) \<Rightarrow> runDDFS_loop ps origin current rest st2
         | (r, st2) \<Rightarrow> (r, st2))
      else runDDFS_loop ps origin current rest st1)"
  by pat_completeness auto

text \<open>
  Termination: the processes inside the table that are not yet marked.  A call of
  \<open>runDDFS\<close> on an unmarked process of the table marks it; a call outside the table
  panics at once; the walk gets shorter at every step and the calls it makes only add
  marks.
\<close>

definition unvisited :: "Process list \<Rightarrow> ddfs \<Rightarrow> int set" where
  "unvisited ps st = {i. 0 \<le> i \<and> i < int (length ps) \<and> \<not> flag (visited st) i}"

definition ddfs_measure ::
  "(Process list \<times> int \<times> int \<times> ddfs) + (Process list \<times> int \<times> int \<times> int list \<times> ddfs)
     \<Rightarrow> nat \<times> nat \<times> nat" where
  "ddfs_measure x = (case x of
      Inl (ps, origin, current, st) \<Rightarrow>
        (if current < 0 \<or> int (length ps) \<le> current then (0, 0, 0)
         else (card (unvisited ps st - {current}), 1, 0))
    | Inr (ps, origin, current, ns, st) \<Rightarrow> (card (unvisited ps st), 0, length ns))"

lemma finite_unvisited: "finite (unvisited ps st)"
proof -
  have "unvisited ps st \<subseteq> {0..<int (length ps)}" by (auto simp: unvisited_def)
  then show ?thesis using finite_subset by blast
qed

lemma unvisited_mark:
  "unvisited ps (st\<lparr>visited := (visited st)(c \<mapsto> True)\<rparr>) = unvisited ps st - {c}"
  by (auto simp: unvisited_def flag_def)

lemma unvisited_mono:
  "(\<And>i. flag (visited st) i \<Longrightarrow> flag (visited st') i) \<Longrightarrow>
     card (unvisited ps st') \<le> card (unvisited ps st)"
  by (rule card_mono[OF finite_unvisited]) (auto simp: unvisited_def)

lemma visited_grows_partial:
  "runDDFS_runDDFS_loop_dom (Inl (ps, origin, current, st)) \<Longrightarrow>
     flag (visited st) i \<longrightarrow> flag (visited (snd (runDDFS ps origin current st))) i"
  "runDDFS_runDDFS_loop_dom (Inr (ps, origin, current, ns, st)) \<Longrightarrow>
     flag (visited st) i \<longrightarrow> flag (visited (snd (runDDFS_loop ps origin current ns st))) i"
proof (induct rule: runDDFS_runDDFS_loop.pinduct)
  case (1 ps origin current st)
  then show ?case
    by (simp add: runDDFS.psimps Let_def flag_def)
next
  case (2 ps origin current st)
  then show ?case by (simp add: runDDFS_loop.psimps)
next
  case (3 ps origin current neighbor rest st)
  then show ?case
    by (auto simp: runDDFS_loop.psimps Let_def split: prod.splits sum.splits bool.splits)
qed

lemma runDDFS_total: "All runDDFS_runDDFS_loop_dom"
proof (relation "inv_image (less_than <*lex*> less_than <*lex*> less_than) ddfs_measure", goal_cases)
  case 1
  show ?case by (intro wf_inv_image wf_lex_prod wf_less_than)
next
  case (2 ps origin current st x)
  then show ?case by (simp add: ddfs_measure_def unvisited_mark)
next
  case (3 ps origin current neighbor rest st x)
  have "neighbor \<in> unvisited ps x" if "0 \<le> neighbor" "neighbor < int (length ps)"
    using that 3 by (simp add: unvisited_def)
  then have "card (unvisited ps x - {neighbor}) < card (unvisited ps x)"
    if "0 \<le> neighbor" "neighbor < int (length ps)"
    using that finite_unvisited[of ps x] by (meson card_Diff1_less)
  moreover have "unvisited ps x = unvisited ps st" using 3 by (simp add: unvisited_def)
  ultimately show ?case by (auto simp: ddfs_measure_def)
next
  case (4 ps origin current neighbor rest st x xa y b)
  have "card (unvisited ps y) \<le> card (unvisited ps x)"
    using visited_grows_partial(1)[OF 4(7)] 4(4)
    by (intro unvisited_mono) (metis snd_conv)
  moreover have "unvisited ps x = unvisited ps st" using 4 by (simp add: unvisited_def)
  ultimately show ?case by (auto simp: ddfs_measure_def)
next
  case (5 ps origin current neighbor rest st x)
  have "unvisited ps x = unvisited ps st" using 5 by (simp add: unvisited_def)
  then show ?case by (auto simp: ddfs_measure_def)
qed

termination runDDFS
  by (rule runDDFS_total)

declare runDDFS.simps [simp del]

text \<open>
  \<^verbatim>\<open>DetectDeadlock\<close> fills the response the caller passed in.  The traversal runs in a
  goroutine that the handler waits for, under the service's lock; a panic in it ends
  the server, which is the \<open>Inl\<close> result.  The service itself is returned as it is after
  the call.
\<close>

definition DetectDeadlock ::
  "DeadlockService \<Rightarrow> DeadlockRequest \<Rightarrow> DeadlockResponse \<Rightarrow> error + (DeadlockService \<times> DeadlockResponse)" where
  "DetectDeadlock ds req res =
     (if ProcessID req < 0 \<or> int (length (processes ds)) \<le> ProcessID req
      then Inr (ds, res\<lparr>Message := ''Invalid Process ID''\<rparr>)
      else
        (let start = ProcessID req in
         case runDDFS (processes ds) start start
                \<lparr>visited = Map.empty, messageCounts = Map.empty, localCounter = 0\<rparr> of
           (Inl e, st) \<Rightarrow> Inl e
         | (Inr deadlockDetected, st) \<Rightarrow>
             Inr (ds, res\<lparr>Message := ''Deadlock detection completed for Process '' @ show_int (ProcessID req),
                          MessageCounts := messageCounts st,
                          TotalMessages := localCounter st,
                          DeadlockStatus := (if deadlockDetected then ''Deadlock confirmed!''
                                             else ''No deadlock detected.'')\<rparr>)))"

definition AddProcess ::
  "DeadlockService \<Rightarrow> AddProcessRequest \<Rightarrow> AddProcessResponse \<Rightarrow> DeadlockService \<times> AddProcessResponse" where
  "AddProcess ds req res =
     (let newProcess = \<lparr>ID = req_ID req, Neighbors = req_Neighbors req\<rparr> in
      (ds\<lparr>processes := processes ds @ [newProcess]\<rparr>,
       res\<lparr>add_Message := ''Process '' @ show_int (req_ID req) @ '' added successfully!''\<rparr>))"

text \<open>The table that \<^verbatim>\<open>main\<close> of the server starts with, and the reply of a fresh call.\<close>

definition main_processes :: "Process list" where
  "main_processes =
     [\<lparr>ID = 0, Neighbors = [1]\<rparr>, \<lparr>ID = 1, Neighbors = [2]\<rparr>,
      \<lparr>ID = 2, Neighbors = [3]\<rparr>, \<lparr>ID = 3, Neighbors = [0]\<rparr>]"

definition zero_response :: DeadlockResponse where
  "zero_response = \<lparr>Message = [], DeadlockStatus = [], MessageCounts = Map.empty, TotalMessages = 0\<rparr>"

definition zero_ddfs :: ddfs where
  "zero_ddfs = \<lparr>visited = Map.empty, messageCounts = Map.empty, localCounter = 0\<rparr>"

text \<open>The wait-for graph of a table, and the tables whose neighbour ids are all indices.\<close>

definition edges :: "Process list \<Rightarrow> (int \<times> int) set" where
  "edges ps = {(i, j). 0 \<le> i \<and> i < int (length ps) \<and> j \<in> set (Neighbors (ps ! nat i))}"

definition neighbors_in_range :: "Process list \<Rightarrow> bool" where
  "neighbors_in_range ps =
     (\<forall>p \<in> set ps. \<forall>n \<in> set (Neighbors p). 0 \<le> n \<and> n < int (length ps))"


subsection \<open>Properties of the traversal\<close>

text \<open>On a table whose neighbour ids are all indices, the traversal never panics.\<close>

lemma runDDFS_no_panic:
  "neighbors_in_range ps \<Longrightarrow> 0 \<le> current \<Longrightarrow> current < int (length ps) \<Longrightarrow>
     \<not> isl (fst (runDDFS ps origin current st))"
  "neighbors_in_range ps \<Longrightarrow> \<forall>n \<in> set ns. 0 \<le> n \<and> n < int (length ps) \<Longrightarrow>
     \<not> isl (fst (runDDFS_loop ps origin current ns st))"
proof (induct ps origin current st and ps origin current ns st rule: runDDFS_runDDFS_loop.induct)
  case (1 ps origin current st)
  have "Neighbors (ps ! nat current) \<in> Neighbors ` set ps" using 1(3,4) by simp
  then have "\<forall>n \<in> set (Neighbors (ps ! nat current)). 0 \<le> n \<and> n < int (length ps)"
    using 1(2) by (auto simp: neighbors_in_range_def)
  then show ?case using 1 by (simp add: runDDFS.simps Let_def)
next
  case (2 ps origin current st)
  then show ?case by simp
next
  case (3 ps origin current neighbor rest st)
  define st1 where "st1 = st\<lparr>messageCounts := (messageCounts st)(origin \<mapsto> count (messageCounts st) origin + 1),
                    localCounter := localCounter st + 1\<rparr>"
  have rng: "0 \<le> neighbor" "neighbor < int (length ps)"
    and rest: "\<forall>n \<in> set rest. 0 \<le> n \<and> n < int (length ps)"
    using 3(5) by auto
  show ?case
  proof (cases "neighbor = origin")
    case True
    then show ?thesis by (simp add: Let_def)
  next
    case ne: False
    show ?thesis
    proof (cases "flag (visited st1) neighbor")
      case True
      then show ?thesis
        using 3(3)[OF st1_def ne _ 3(4) rest] ne by (simp add: Let_def st1_def)
    next
      case nv: False
      obtain r st2 where run: "runDDFS ps origin neighbor st1 = (r, st2)"
        by (cases "runDDFS ps origin neighbor st1")
      have "\<not> isl r"
        using 3(1)[OF st1_def ne nv 3(4) rng] run by simp
      then obtain b where r: "r = Inr b" by (cases r) auto
      show ?thesis
      proof (cases b)
        case True
        then show ?thesis using ne nv run r by (simp add: Let_def st1_def[symmetric])
      next
        case False
        then have bf: "b = False" by simp
        show ?thesis
          using 3(2)[OF st1_def ne nv run[symmetric] r bf 3(4) rest] ne nv run r bf
          by (simp add: Let_def st1_def[symmetric])
      qed
    qed
  qed
qed

lemma runDDFS_true_path:
  "fst (runDDFS ps origin current st) = Inr True \<Longrightarrow> (current, origin) \<in> (edges ps)\<^sup>+"
  "fst (runDDFS_loop ps origin current ns st) = Inr True \<Longrightarrow> 0 \<le> current \<Longrightarrow>
     current < int (length ps) \<Longrightarrow> set ns \<subseteq> set (Neighbors (ps ! nat current)) \<Longrightarrow>
     (current, origin) \<in> (edges ps)\<^sup>+"
proof (induct ps origin current st and ps origin current ns st rule: runDDFS_runDDFS_loop.induct)
  case (1 ps origin current st)
  then show ?case by (simp add: runDDFS.simps Let_def split: if_splits)
next
  case (2 ps origin current st)
  then show ?case by simp
next
  case (3 ps origin current neighbor rest st)
  have e: "(current, neighbor) \<in> edges ps" using 3(5-7) by (simp add: edges_def)
  show ?case
  proof (cases "neighbor = origin")
    case True
    then show ?thesis using e by auto
  next
    case False
    then show ?thesis using 3 e
      by (auto simp: Let_def split: prod.splits sum.splits bool.splits if_splits
               intro: trancl_into_trancl2)
  qed
qed

text \<open>
  \<open>C10\<close>: if every neighbour id in the table is an index of the table, \<^verbatim>\<open>runDDFS\<close>
  never indexes the table out of range for a start id inside the table, and
  \<^verbatim>\<open>DetectDeadlock\<close> never panics.  Nothing checks that precondition: \<^verbatim>\<open>AddProcess\<close>
  appends whatever process is requested, and a process added with a neighbour id
  outside the table makes a later detection from it panic.
\<close>

theorem C10_runDDFS_index_in_range:
  assumes "neighbors_in_range ps" and "0 \<le> start" and "start < int (length ps)"
  shows "fst (runDDFS ps origin start st) \<noteq> Inl IndexOutOfRange
       \<and> (\<forall>e. DetectDeadlock \<lparr>processes = ps, globalMessageCounter = g\<rparr> \<lparr>ProcessID = start\<rparr> res \<noteq> Inl e)
       \<and> (\<forall>ds req r. processes (fst (AddProcess ds req r))
              = processes ds @ [\<lparr>ID = req_ID req, Neighbors = req_Neighbors req\<rparr>])
       \<and> DetectDeadlock
            (fst (AddProcess \<lparr>processes = main_processes, globalMessageCounter = 0\<rparr>
                    \<lparr>req_ID = 4, req_Neighbors = [7]\<rparr> \<lparr>add_Message = []\<rparr>))
            \<lparr>ProcessID = 4\<rparr> zero_response = Inl IndexOutOfRange"
proof -
  have a: "\<not> isl (fst (runDDFS ps origin start st))" for origin st
    using runDDFS_no_panic(1)[OF assms] .
  then have 1: "fst (runDDFS ps origin start st) \<noteq> Inl IndexOutOfRange"
    by (metis sum.disc(1))
  have 2: "DetectDeadlock \<lparr>processes = ps, globalMessageCounter = g\<rparr> \<lparr>ProcessID = start\<rparr> res \<noteq> Inl e" for e
    using a[of start "\<lparr>visited = Map.empty, messageCounts = Map.empty, localCounter = 0\<rparr>"]
    by (auto simp: DetectDeadlock_def Let_def split: prod.splits sum.splits)
  have 3: "processes (fst (AddProcess ds req r))
             = processes ds @ [\<lparr>ID = req_ID req, Neighbors = req_Neighbors req\<rparr>]" for ds req r
    by (simp add: AddProcess_def Let_def)
  have 4: "DetectDeadlock
            (fst (AddProcess \<lparr>processes = main_processes, globalMessageCounter = 0\<rparr>
                    \<lparr>req_ID = 4, req_Neighbors = [7]\<rparr> \<lparr>add_Message = []\<rparr>))
            \<lparr>ProcessID = 4\<rparr> zero_response = Inl IndexOutOfRange"
    by (simp add: DetectDeadlock_def AddProcess_def runDDFS.simps main_processes_def
                  zero_response_def Let_def flag_def count_def)
  show ?thesis using 1 2 3 4 by blast
qed

theorem C10_runDDFS_index_in_range_witness:
  "neighbors_in_range main_processes \<and> (0::int) \<le> 2 \<and> 2 < int (length main_processes)
   \<and> fst (runDDFS main_processes 2 2 zero_ddfs) \<noteq> Inl IndexOutOfRange
   \<and> (\<forall>e. DetectDeadlock \<lparr>processes = main_processes, globalMessageCounter = 0\<rparr>
             \<lparr>ProcessID = 2\<rparr> zero_response \<noteq> Inl e)"
proof -
  have h1: "neighbors_in_range main_processes"
    by (simp add: neighbors_in_range_def main_processes_def)
  have h2: "(0::int) \<le> 2" by simp
  have h3: "2 < int (length main_processes)" by (simp add: main_processes_def)
  show ?thesis
    using h1 h2 h3 C10_runDDFS_index_in_range[OF h1 h2 h3, of 2 zero_ddfs 0 zero_response]
    by blast
qed


section \<open>The recursive probe program\<close>

text \<open>
  The process table is a \<^verbatim>\<open>map[int]*Process\<close>: a finite map.  Every key holds a process
  of its own (no nil pointer, no process stored under two keys), with an allocated
  \<^verbatim>\<open>receivedProbes\<close> map, as in \<^verbatim>\<open>main\<close> and \<^verbatim>\<open>detectDeadlock\<close>.  The field \<^verbatim>\<open>id\<close> is named
  \<open>pid\<close>.  Reading \<^verbatim>\<open>processes[target]\<close> for a key that is absent gives a nil pointer, and
  the field access through it panics.
\<close>

record CMH_Process =
  pid :: int
  waitingFor :: "int list"
  receivedProbes :: "int \<rightharpoonup> bool"

type_synonym cmh_processes = "(int, CMH_Process) fmap"

text \<open>
  \<^verbatim>\<open>sendProbe\<close> returns at once when the target waits for nobody; otherwise it walks
  the target's \<^verbatim>\<open>waitingFor\<close> list, which is \<open>sendProbe_loop\<close>.  The walk reads the
  target's \<^verbatim>\<open>receivedProbes\<close> in the table as it is at that iteration.
\<close>

function sendProbe :: "int \<Rightarrow> int \<Rightarrow> int \<Rightarrow> cmh_processes \<Rightarrow> (error + bool) \<times> cmh_processes"
  and sendProbe_loop :: "int \<Rightarrow> int \<Rightarrow> int list \<Rightarrow> cmh_processes \<Rightarrow> (error + bool) \<times> cmh_processes"
where
  "sendProbe probeSender origin target ps =
     (case fmlookup ps target of
        None \<Rightarrow> (Inl NilDereference, ps)
      | Some p \<Rightarrow>
          if length (waitingFor p) > 0 then sendProbe_loop origin target (waitingFor p) ps
          else (Inr False, ps))"
| "sendProbe_loop origin target [] ps = (Inr False, ps)"
| "sendProbe_loop origin target (dependent # rest) ps =
     (if dependent = origin then (Inr True, ps)
      else
        (case fmlookup ps target of
           None \<Rightarrow> (Inl NilDereference, ps)
         | Some p \<Rightarrow>
             if \<not> flag (receivedProbes p) dependent then
               (let ps1 = fmupd target (p\<lparr>receivedProbes := (receivedProbes p)(dependent \<mapsto> True)\<rparr>) ps in
                case sendProbe target origin dependent ps1 of
                  (Inr False, ps2) \<Rightarrow> sendProbe_loop origin target rest ps2
                | (r, ps2) \<Rightarrow> (r, ps2))
             else sendProbe_loop origin target rest ps))"
  by pat_completeness auto

definition grows :: "cmh_processes \<Rightarrow> cmh_processes \<Rightarrow> bool" where
  "grows ps ps' =
     (\<forall>t. case fmlookup ps t of
            None \<Rightarrow> fmlookup ps' t = None
          | Some p \<Rightarrow> (\<exists>p'. fmlookup ps' t = Some p' \<and> waitingFor p' = waitingFor p \<and>
                          (\<forall>d. flag (receivedProbes p) d \<longrightarrow> flag (receivedProbes p') d)))"

definition pending :: "cmh_processes \<Rightarrow> int \<Rightarrow> int list \<Rightarrow> (int \<times> int) set" where
  "pending ps target ds =
     {(t, d). \<exists>p. fmlookup ps t = Some p \<and> \<not> flag (receivedProbes p) d \<and>
                   (d \<in> set (waitingFor p) \<or> (t = target \<and> d \<in> set ds))}"

lemma grows_refl: "grows ps ps"
  by (auto simp: grows_def split: option.splits)

lemma grows_trans: "grows a b \<Longrightarrow> grows b c \<Longrightarrow> grows a c"
  unfolding grows_def
  apply (intro allI)
  subgoal for t
    apply (erule_tac x=t in allE)+
    apply (auto split: option.splits)
    done
  done

lemma grows_mark:
  "fmlookup ps t = Some p \<Longrightarrow>
   grows ps (fmupd t (p\<lparr>receivedProbes := (receivedProbes p)(d \<mapsto> True)\<rparr>) ps)"
  by (auto simp: grows_def flag_def split: option.splits)

lemma finite_pending: "finite (pending ps target ds)"
proof -
  have "pending ps target ds \<subseteq>
        fmdom' ps \<times> ((\<Union>p \<in> fmran' ps. set (waitingFor p)) \<union> set ds)"
    by (auto simp: pending_def intro: fmdom'I fmran'I)
  moreover have "finite (fmdom' ps \<times> ((\<Union>p \<in> fmran' ps. set (waitingFor p)) \<union> set ds))"
    by (simp add: fmran'_alt_def)
  ultimately show ?thesis using finite_subset by blast
qed

lemma pending_grows: "grows ps ps' \<Longrightarrow> set ds' \<subseteq> set ds \<Longrightarrow> pending ps' target ds' \<subseteq> pending ps target ds"
  unfolding pending_def grows_def
  apply clarsimp
  subgoal for t d p
    apply (erule_tac x=t in allE)
    apply (auto split: option.splits)
    done
  done

lemma sendProbe_grows_partial:
  "sendProbe_sendProbe_loop_dom (Inl (probeSender, origin, target, ps)) \<Longrightarrow>
     grows ps (snd (sendProbe probeSender origin target ps))"
  "sendProbe_sendProbe_loop_dom (Inr (origin, target, ds, ps)) \<Longrightarrow>
     grows ps (snd (sendProbe_loop origin target ds ps))"
proof (induct rule: sendProbe_sendProbe_loop.pinduct)
  case (1 probeSender origin target ps)
  then show ?case
    by (auto simp: sendProbe.psimps grows_refl split: option.splits)
next
  case (2 origin target ps)
  then show ?case by (simp add: sendProbe_loop.psimps grows_refl)
next
  case (3 origin target dependent rest ps)
  show ?case
  proof (cases "dependent = origin")
    case True
    then show ?thesis using 3(1) by (simp add: sendProbe_loop.psimps grows_refl)
  next
    case ne: False
    show ?thesis
    proof (cases "fmlookup ps target")
      case None
      then show ?thesis using 3(1) ne by (simp add: sendProbe_loop.psimps grows_refl)
    next
      case (Some p)
      show ?thesis
      proof (cases "flag (receivedProbes p) dependent")
        case True
        then show ?thesis using 3(1) 3(4)[OF ne Some] ne Some
          by (simp add: sendProbe_loop.psimps)
      next
        case nv: False
        define ps1 where "ps1 = fmupd target (p\<lparr>receivedProbes := (receivedProbes p)(dependent \<mapsto> True)\<rparr>) ps"
        obtain r ps2 where run: "sendProbe target origin dependent ps1 = (r, ps2)"
          by (cases "sendProbe target origin dependent ps1")
        have g1: "grows ps ps1" unfolding ps1_def by (rule grows_mark[OF Some])
        have g2: "grows ps1 ps2" using 3(2)[OF ne Some nv ps1_def] run by simp
        show ?thesis
        proof (cases "r = Inr False")
          case True
          define b where "b = False"
          have rb: "r = Inr b" "b = False" using True by (simp_all add: b_def)
          have "grows ps2 (snd (sendProbe_loop origin target rest ps2))"
            using 3(3)[OF ne Some nv ps1_def run[symmetric] rb] .
          then show ?thesis using 3(1) ne Some nv run True g1 g2
            by (simp add: sendProbe_loop.psimps ps1_def[symmetric]) (meson grows_trans)
        next
          case False
          then show ?thesis using 3(1) ne Some nv run g1 g2
            by (auto simp: sendProbe_loop.psimps ps1_def[symmetric] 
                split: sum.splits bool.splits intro: grows_trans)
        qed
      qed
    qed
  qed
qed


definition cmh_measure ::
  "(int \<times> int \<times> int \<times> cmh_processes) + (int \<times> int \<times> int list \<times> cmh_processes) \<Rightarrow> nat \<times> nat \<times> nat" where
  "cmh_measure x = (case x of
      Inl (probeSender, origin, target, ps) \<Rightarrow> (card (pending ps target []), 1, 0)
    | Inr (origin, target, ds, ps) \<Rightarrow> (card (pending ps target ds), 0, length ds))"

lemma pending_own: "fmlookup ps target = Some p \<Longrightarrow> pending ps target (waitingFor p) = pending ps target []"
  by (auto simp: pending_def)

lemma pending_other: "pending ps t [] = pending ps t' []"
  by (auto simp: pending_def)

lemma pending_mark:
  assumes "fmlookup ps target = Some p" "\<not> flag (receivedProbes p) d"
  shows "card (pending (fmupd target (p\<lparr>receivedProbes := (receivedProbes p)(d \<mapsto> True)\<rparr>) ps) t' [])
           < card (pending ps target (d # rest))"
proof -
  let ?ps1 = "fmupd target (p\<lparr>receivedProbes := (receivedProbes p)(d \<mapsto> True)\<rparr>) ps"
  have in1: "(target, d) \<in> pending ps target (d # rest)"
    using assms by (simp add: pending_def)
  have out1: "(target, d) \<notin> pending ?ps1 t' []"
    by (simp add: pending_def flag_def)
  have "pending ?ps1 t' [] \<subseteq> pending ps target (d # rest)"
    using assms by (auto simp: pending_def flag_def split: if_splits)
  then have "pending ?ps1 t' [] \<subset> pending ps target (d # rest)"
    using in1 out1 by blast
  then show ?thesis by (rule psubset_card_mono[OF finite_pending])
qed

text \<open>
  Termination: the pairs (process, dependent) that are not yet marked in
  \<^verbatim>\<open>receivedProbes\<close>; every recursive call is preceded by a new mark, and calls only add
  marks.
\<close>

lemma sendProbe_total: "All sendProbe_sendProbe_loop_dom"
proof (relation "inv_image (less_than <*lex*> less_than <*lex*> less_than) cmh_measure", goal_cases)
  case 1
  show ?case by (intro wf_inv_image wf_lex_prod wf_less_than)
next
  case (2 probeSender origin target ps p)
  then show ?case by (simp add: cmh_measure_def pending_own)
next
  case (3 origin target dependent rest ps p x)
  then show ?case using pending_mark[of ps target p dependent dependent rest]
    by (simp add: cmh_measure_def)
next
  case (4 origin target dependent rest ps p x xa y b)
  have "grows ps x" using 4 by (simp add: grows_mark)
  moreover have "grows x y" using sendProbe_grows_partial(1)[OF 4(8)] 4(5) by (metis snd_conv)
  ultimately have "grows ps y" by (rule grows_trans)
  then have "pending y target rest \<subseteq> pending ps target (dependent # rest)"
    by (rule pending_grows) auto
  then have "card (pending y target rest) \<le> card (pending ps target (dependent # rest))"
    by (rule card_mono[OF finite_pending])
  then show ?case by (auto simp: cmh_measure_def)
next
  case (5 origin target dependent rest ps p)
  have "pending ps target rest \<subseteq> pending ps target (dependent # rest)"
    by (rule pending_grows[OF grows_refl]) auto
  then have "card (pending ps target rest) \<le> card (pending ps target (dependent # rest))"
    by (rule card_mono[OF finite_pending])
  then show ?case by (auto simp: cmh_measure_def)
qed

termination sendProbe
  by (rule sendProbe_total)

lemma sendProbe_grows:
  "grows ps (snd (sendProbe probeSender origin target ps))"
  "grows ps (snd (sendProbe_loop origin target ds ps))"
  using sendProbe_grows_partial sendProbe_total by auto

lemma visited_grows:
  "flag (visited st) i \<Longrightarrow> flag (visited (snd (runDDFS ps origin current st))) i"
  "flag (visited st) i \<Longrightarrow> flag (visited (snd (runDDFS_loop ps origin current ns st))) i"
  using visited_grows_partial runDDFS_total by auto

declare sendProbe.simps [simp del]

text \<open>
  \<^verbatim>\<open>detectDeadlock\<close> ranges over the table in an order Go does not fix: the order is the
  argument \<open>ids\<close>.  The result is \<open>True\<close> when "Deadlock confirmed!" is printed and
  \<open>False\<close> when "No deadlock detected." is.
\<close>

fun detect_from :: "int \<Rightarrow> int list \<Rightarrow> cmh_processes \<Rightarrow> (error + bool) \<times> cmh_processes" where
  "detect_from i [] ps = (Inr False, ps)"
| "detect_from i (dependent # rest) ps =
     (case sendProbe i i dependent ps of
        (Inr False, ps') \<Rightarrow> detect_from i rest ps'
      | (r, ps') \<Rightarrow> (r, ps'))"

fun detectDeadlock :: "int list \<Rightarrow> cmh_processes \<Rightarrow> (error + bool) \<times> cmh_processes" where
  "detectDeadlock [] ps = (Inr False, ps)"
| "detectDeadlock (i # ids) ps =
     (case fmlookup ps i of
        None \<Rightarrow> detectDeadlock ids ps
      | Some process \<Rightarrow>
          (case detect_from i (waitingFor process)
                  (fmupd i (process\<lparr>receivedProbes := Map.empty\<rparr>) ps) of
             (Inr False, ps') \<Rightarrow> detectDeadlock ids ps'
           | (r, ps') \<Rightarrow> (r, ps')))"

definition cmh_main_processes :: cmh_processes where
  "cmh_main_processes =
     fmupd 1 \<lparr>pid = 1, waitingFor = [2], receivedProbes = Map.empty\<rparr>
    (fmupd 2 \<lparr>pid = 2, waitingFor = [3], receivedProbes = Map.empty\<rparr>
    (fmupd 3 \<lparr>pid = 3, waitingFor = [1], receivedProbes = Map.empty\<rparr> fmempty))"

text \<open>The wait-for graph of a table, and the tables in which every dependent is a key.\<close>

definition cmh_edges :: "cmh_processes \<Rightarrow> (int \<times> int) set" where
  "cmh_edges ps = {(t, d). \<exists>p. fmlookup ps t = Some p \<and> d \<in> set (waitingFor p)}"

definition dependents_present :: "cmh_processes \<Rightarrow> bool" where
  "dependents_present ps =
     (\<forall>t p. fmlookup ps t = Some p \<longrightarrow> (\<forall>d \<in> set (waitingFor p). fmlookup ps d \<noteq> None))"

lemma grows_lookup:
  "grows ps ps' \<Longrightarrow> fmlookup ps t = Some p \<Longrightarrow>
     \<exists>p'. fmlookup ps' t = Some p' \<and> waitingFor p' = waitingFor p"
  unfolding grows_def by (erule_tac x=t in allE) auto

lemma grows_lookup_None:
  "grows ps ps' \<Longrightarrow> fmlookup ps t = None \<Longrightarrow> fmlookup ps' t = None"
  unfolding grows_def by (erule_tac x=t in allE) auto

lemma grows_lookup_rev:
  assumes "grows ps ps'" "fmlookup ps' t = Some p'"
  shows "\<exists>p. fmlookup ps t = Some p \<and> waitingFor p' = waitingFor p"
proof (cases "fmlookup ps t")
  case None
  then show ?thesis using grows_lookup_None[OF assms(1) None] assms(2) by simp
next
  case (Some p)
  then show ?thesis using grows_lookup[OF assms(1) Some] assms(2) by auto
qed

lemma grows_edges:
  assumes "grows ps ps'"
  shows "cmh_edges ps' = cmh_edges ps"
proof (intro set_eqI iffI; clarify)
  fix t d assume "(t, d) \<in> cmh_edges ps'"
  then obtain p' where "fmlookup ps' t = Some p'" "d \<in> set (waitingFor p')"
    by (auto simp: cmh_edges_def)
  then show "(t, d) \<in> cmh_edges ps"
    using grows_lookup_rev[OF assms] by (fastforce simp: cmh_edges_def)
next
  fix t d assume "(t, d) \<in> cmh_edges ps"
  then obtain p where "fmlookup ps t = Some p" "d \<in> set (waitingFor p)"
    by (auto simp: cmh_edges_def)
  then show "(t, d) \<in> cmh_edges ps'"
    using grows_lookup[OF assms] by (fastforce simp: cmh_edges_def)
qed

lemma grows_present:
  assumes "grows ps ps'" "dependents_present ps"
  shows "dependents_present ps'"
  unfolding dependents_present_def
proof (intro allI impI ballI)
  fix t p' d assume a: "fmlookup ps' t = Some p'" "d \<in> set (waitingFor p')"
  obtain p where p: "fmlookup ps t = Some p" "waitingFor p' = waitingFor p"
    using grows_lookup_rev[OF assms(1) a(1)] by blast
  then have "fmlookup ps d \<noteq> None" using assms(2) a(2) by (auto simp: dependents_present_def)
  then show "fmlookup ps' d \<noteq> None" using grows_lookup[OF assms(1)] by fastforce
qed


lemma sendProbe_true_path:
  "fst (sendProbe probeSender origin target ps) = Inr True \<Longrightarrow> (target, origin) \<in> (cmh_edges ps)\<^sup>+"
  "fst (sendProbe_loop origin target ds ps) = Inr True \<Longrightarrow>
     (\<exists>p. fmlookup ps target = Some p \<and> set ds \<subseteq> set (waitingFor p)) \<Longrightarrow>
     (target, origin) \<in> (cmh_edges ps)\<^sup>+"
proof (induct probeSender origin target ps and origin target ds ps rule: sendProbe_sendProbe_loop.induct)
  case (1 probeSender origin target ps)
  then show ?case
    by (auto simp: sendProbe.simps split: option.splits if_splits)
next
  case (2 origin target ps)
  then show ?case by simp
next
  case (3 origin target dependent rest ps)
  from 3(5) obtain p where p: "fmlookup ps target = Some p"
    and sub: "dependent \<in> set (waitingFor p)" "set rest \<subseteq> set (waitingFor p)" by auto
  have e: "(target, dependent) \<in> cmh_edges ps" using p sub by (auto simp: cmh_edges_def)
  show ?case
  proof (cases "dependent = origin")
    case True
    then show ?thesis using e by auto
  next
    case ne: False
    show ?thesis
    proof (cases "flag (receivedProbes p) dependent")
      case True
      have "fst (sendProbe_loop origin target rest ps) = Inr True"
        using 3(4) ne p True by simp
      then show ?thesis using 3(3)[OF ne p] True p sub by auto
    next
      case nv: False
      define ps1 where "ps1 = fmupd target (p\<lparr>receivedProbes := (receivedProbes p)(dependent \<mapsto> True)\<rparr>) ps"
      obtain r ps2 where run: "sendProbe target origin dependent ps1 = (r, ps2)"
        by (cases "sendProbe target origin dependent ps1")
      have g1: "grows ps ps1" unfolding ps1_def by (rule grows_mark[OF p])
      have g2: "grows ps1 ps2" using sendProbe_grows(1)[of ps1 target origin dependent] run by simp
      have g: "grows ps ps2" using g1 g2 by (rule grows_trans)
      show ?thesis
      proof (cases "r = Inr False")
        case True
        define b where "b = False"
        have rb: "r = Inr b" "b = False" using True by (simp_all add: b_def)
        have res: "fst (sendProbe_loop origin target rest ps2) = Inr True"
          using 3(4) ne p nv run True by (simp add: ps1_def[symmetric])
        obtain p2 where p2: "fmlookup ps2 target = Some p2" "waitingFor p2 = waitingFor p"
          using grows_lookup[OF g p] by blast
        have "(target, origin) \<in> (cmh_edges ps2)\<^sup>+"
          using 3(2)[OF ne p nv ps1_def run[symmetric] rb res] p2 sub by auto
        then show ?thesis using grows_edges[OF g] by simp
      next
        case False
        then have "r = Inr True"
          using 3(4) ne p nv run
          by (auto simp: ps1_def[symmetric] split: sum.splits bool.splits)
        then have "(dependent, origin) \<in> (cmh_edges ps1)\<^sup>+"
          using 3(1)[OF ne p nv ps1_def] run by simp
        then have "(dependent, origin) \<in> (cmh_edges ps)\<^sup>+"
          using grows_edges[OF g1] by simp
        then show ?thesis using e by (rule trancl_into_trancl2[rotated])
      qed
    qed
  qed
qed

lemma sendProbe_no_panic:
  "dependents_present ps \<Longrightarrow> fmlookup ps target \<noteq> None \<Longrightarrow>
     \<not> isl (fst (sendProbe probeSender origin target ps))"
  "dependents_present ps \<Longrightarrow>
     (\<exists>p. fmlookup ps target = Some p \<and> set ds \<subseteq> set (waitingFor p)) \<Longrightarrow>
     \<not> isl (fst (sendProbe_loop origin target ds ps))"
proof (induct probeSender origin target ps and origin target ds ps rule: sendProbe_sendProbe_loop.induct)
  case (1 probeSender origin target ps)
  then show ?case
    by (auto simp: sendProbe.simps split: option.splits if_splits)
next
  case (2 origin target ps)
  then show ?case by simp
next
  case (3 origin target dependent rest ps)
  from 3(5) obtain p where p: "fmlookup ps target = Some p"
    and sub: "dependent \<in> set (waitingFor p)" "set rest \<subseteq> set (waitingFor p)" by auto
  have dp: "fmlookup ps dependent \<noteq> None"
    using 3(4) p sub(1) by (auto simp: dependents_present_def)
  show ?case
  proof (cases "dependent = origin")
    case True
    then show ?thesis by simp
  next
    case ne: False
    show ?thesis
    proof (cases "flag (receivedProbes p) dependent")
      case True
      then show ?thesis using 3(3)[OF ne p _ 3(4)] ne p sub by auto
    next
      case nv: False
      define ps1 where "ps1 = fmupd target (p\<lparr>receivedProbes := (receivedProbes p)(dependent \<mapsto> True)\<rparr>) ps"
      obtain r ps2 where run: "sendProbe target origin dependent ps1 = (r, ps2)"
        by (cases "sendProbe target origin dependent ps1")
      have g1: "grows ps ps1" unfolding ps1_def by (rule grows_mark[OF p])
      have g2: "grows ps1 ps2" using sendProbe_grows(1)[of ps1 target origin dependent] run by simp
      have g: "grows ps ps2" using g1 g2 by (rule grows_trans)
      have dp1: "dependents_present ps1" using grows_present[OF g1 3(4)] .
      have dp2: "dependents_present ps2" using grows_present[OF g 3(4)] .
      have d1: "fmlookup ps1 dependent \<noteq> None" using dp grows_lookup[OF g1] by fastforce
      have nr: "\<not> isl r" using 3(1)[OF ne p nv ps1_def dp1 d1] run by simp
      show ?thesis
      proof (cases "r = Inr False")
        case True
        define b where "b = False"
        have rb: "r = Inr b" "b = False" using True by (simp_all add: b_def)
        obtain p2 where p2: "fmlookup ps2 target = Some p2" "waitingFor p2 = waitingFor p"
          using grows_lookup[OF g p] by blast
        have "\<not> isl (fst (sendProbe_loop origin target rest ps2))"
          using 3(2)[OF ne p nv ps1_def run[symmetric] rb dp2] p2 sub by auto
        then show ?thesis using ne p nv run True by (simp add: ps1_def[symmetric])
      next
        case False
        then show ?thesis using nr ne p nv run
          by (auto simp: ps1_def[symmetric] split: sum.splits bool.splits)
      qed
    qed
  qed
qed


definition same_graph :: "cmh_processes \<Rightarrow> cmh_processes \<Rightarrow> bool" where
  "same_graph ps ps' = (\<forall>t. map_option waitingFor (fmlookup ps' t) = map_option waitingFor (fmlookup ps t))"

lemma same_graph_refl: "same_graph ps ps"
  by (simp add: same_graph_def)

lemma same_graph_trans: "same_graph a b \<Longrightarrow> same_graph b c \<Longrightarrow> same_graph a c"
  by (simp add: same_graph_def)

lemma grows_same_graph: "grows ps ps' \<Longrightarrow> same_graph ps ps'"
  unfolding same_graph_def
proof
  fix t assume g: "grows ps ps'"
  show "map_option waitingFor (fmlookup ps' t) = map_option waitingFor (fmlookup ps t)"
  proof (cases "fmlookup ps t")
    case None
    then show ?thesis using grows_lookup_None[OF g None] by simp
  next
    case (Some p)
    then show ?thesis using grows_lookup[OF g Some] by auto
  qed
qed

lemma same_graph_reset:
  "fmlookup ps i = Some p \<Longrightarrow> same_graph ps (fmupd i (p\<lparr>receivedProbes := m\<rparr>) ps)"
  by (auto simp: same_graph_def)

lemma same_graph_lookup:
  assumes "same_graph ps ps'" "fmlookup ps t = Some p"
  shows "\<exists>p'. fmlookup ps' t = Some p' \<and> waitingFor p' = waitingFor p"
proof -
  have "map_option waitingFor (fmlookup ps' t) = Some (waitingFor p)"
    using assms by (simp add: same_graph_def)
  then show ?thesis by (cases "fmlookup ps' t") auto
qed

lemma same_graph_sym: "same_graph ps ps' \<Longrightarrow> same_graph ps' ps"
  by (simp add: same_graph_def)

lemma same_graph_edges_sub:
  assumes "same_graph ps ps'"
  shows "cmh_edges ps \<subseteq> cmh_edges ps'"
proof (clarify)
  fix t d assume "(t, d) \<in> cmh_edges ps"
  then obtain p where p: "fmlookup ps t = Some p" "d \<in> set (waitingFor p)"
    by (auto simp: cmh_edges_def)
  obtain p' where "fmlookup ps' t = Some p'" "waitingFor p' = waitingFor p"
    using same_graph_lookup[OF assms p(1)] by blast
  then show "(t, d) \<in> cmh_edges ps'" using p(2) by (auto simp: cmh_edges_def)
qed

lemma same_graph_edges: "same_graph ps ps' \<Longrightarrow> cmh_edges ps' = cmh_edges ps"
  using same_graph_edges_sub[of ps ps'] same_graph_edges_sub[of ps' ps] same_graph_sym[of ps ps']
  by blast

lemma same_graph_present:
  assumes "same_graph ps ps'" "dependents_present ps"
  shows "dependents_present ps'"
  unfolding dependents_present_def
proof (intro allI impI ballI)
  fix t p' d assume a: "fmlookup ps' t = Some p'" "d \<in> set (waitingFor p')"
  obtain p where p: "fmlookup ps t = Some p" "waitingFor p = waitingFor p'"
    using same_graph_lookup[OF same_graph_sym[OF assms(1)] a(1)] by blast
  then have "fmlookup ps d \<noteq> None" using assms(2) a(2) by (auto simp: dependents_present_def)
  then obtain q where "fmlookup ps d = Some q" by auto
  then show "fmlookup ps' d \<noteq> None" using same_graph_lookup[OF assms(1)] by fastforce
qed

lemma detect_from_same_graph: "same_graph ps (snd (detect_from i ds ps))"
proof (induction ds arbitrary: ps)
  case Nil
  show ?case by (simp add: same_graph_refl)
next
  case (Cons d ds)
  obtain r ps' where run: "sendProbe i i d ps = (r, ps')" by (cases "sendProbe i i d ps")
  have g: "same_graph ps ps'"
    using grows_same_graph[OF sendProbe_grows(1)[of ps i i d]] run by simp
  show ?case
  proof (cases "r = Inr False")
    case True
    then show ?thesis using run same_graph_trans[OF g Cons.IH[of ps']] by simp
  next
    case False
    then show ?thesis using run g by (auto split: sum.splits bool.splits)
  qed
qed

lemma detect_from_true_cycle:
  assumes "fst (detect_from i ds ps) = Inr True"
    and "\<exists>p. fmlookup ps i = Some p \<and> set ds \<subseteq> set (waitingFor p)"
  shows "(i, i) \<in> (cmh_edges ps)\<^sup>+"
  using assms
proof (induction ds arbitrary: ps)
  case Nil
  then show ?case by simp
next
  case (Cons d ds)
  from Cons.prems(2) obtain p where p: "fmlookup ps i = Some p"
    and sub: "d \<in> set (waitingFor p)" "set ds \<subseteq> set (waitingFor p)" by auto
  have e: "(i, d) \<in> cmh_edges ps" using p sub by (auto simp: cmh_edges_def)
  obtain r ps' where run: "sendProbe i i d ps = (r, ps')" by (cases "sendProbe i i d ps")
  have g: "same_graph ps ps'"
    using grows_same_graph[OF sendProbe_grows(1)[of ps i i d]] run by simp
  show ?case
  proof (cases "r = Inr False")
    case True
    then have res: "fst (detect_from i ds ps') = Inr True" using Cons.prems(1) run by simp
    obtain p' where "fmlookup ps' i = Some p'" "waitingFor p' = waitingFor p"
      using same_graph_lookup[OF g p] by blast
    then have "(i, i) \<in> (cmh_edges ps')\<^sup>+" using Cons.IH[OF res] sub by auto
    then show ?thesis using same_graph_edges[OF g] by simp
  next
    case False
    then have "r = Inr True" using Cons.prems(1) run by (auto split: sum.splits bool.splits)
    then have "(d, i) \<in> (cmh_edges ps)\<^sup>+"
      using sendProbe_true_path(1)[of i i d ps] run by simp
    then show ?thesis using e by (rule trancl_into_trancl2[rotated])
  qed
qed

lemma detect_from_no_panic:
  assumes "dependents_present ps"
    and "\<exists>p. fmlookup ps i = Some p \<and> set ds \<subseteq> set (waitingFor p)"
  shows "\<not> isl (fst (detect_from i ds ps))"
  using assms
proof (induction ds arbitrary: ps)
  case Nil
  then show ?case by simp
next
  case (Cons d ds)
  from Cons.prems(2) obtain p where p: "fmlookup ps i = Some p"
    and sub: "d \<in> set (waitingFor p)" "set ds \<subseteq> set (waitingFor p)" by auto
  have dp: "fmlookup ps d \<noteq> None" using Cons.prems(1) p sub(1) by (auto simp: dependents_present_def)
  obtain r ps' where run: "sendProbe i i d ps = (r, ps')" by (cases "sendProbe i i d ps")
  have g: "same_graph ps ps'"
    using grows_same_graph[OF sendProbe_grows(1)[of ps i i d]] run by simp
  have nr: "\<not> isl r" using sendProbe_no_panic(1)[OF Cons.prems(1) dp, of i i] run by simp
  show ?case
  proof (cases "r = Inr False")
    case True
    obtain p' where "fmlookup ps' i = Some p'" "waitingFor p' = waitingFor p"
      using same_graph_lookup[OF g p] by blast
    then have "\<not> isl (fst (detect_from i ds ps'))"
      using Cons.IH[OF same_graph_present[OF g Cons.prems(1)]] sub by auto
    then show ?thesis using True run by simp
  next
    case False
    then show ?thesis using nr run by (auto split: sum.splits bool.splits)
  qed
qed

lemma detectDeadlock_acyclic:
  assumes "acyclic (cmh_edges ps)"
  shows "fst (detectDeadlock ids ps) \<noteq> Inr True"
  using assms
proof (induction ids arbitrary: ps)
  case Nil
  then show ?case by simp
next
  case (Cons i ids)
  show ?case
  proof (cases "fmlookup ps i")
    case None
    then show ?thesis using Cons by simp
  next
    case (Some process)
    define ps1 where "ps1 = fmupd i (process\<lparr>receivedProbes := Map.empty\<rparr>) ps"
    have g1: "same_graph ps ps1" unfolding ps1_def by (rule same_graph_reset[OF Some])
    have l1: "fmlookup ps1 i = Some (process\<lparr>receivedProbes := Map.empty\<rparr>)" by (simp add: ps1_def)
    obtain r ps' where run: "detect_from i (waitingFor process) ps1 = (r, ps')"
      by (cases "detect_from i (waitingFor process) ps1")
    have g2: "same_graph ps1 ps'" using detect_from_same_graph[of ps1 i "waitingFor process"] run by simp
    have ac1: "acyclic (cmh_edges ps1)" using Cons.prems same_graph_edges[OF g1] by simp
    have ac': "acyclic (cmh_edges ps')" using ac1 same_graph_edges[OF g2] by simp
    have "r \<noteq> Inr True"
    proof
      assume "r = Inr True"
      then have "(i, i) \<in> (cmh_edges ps1)\<^sup>+"
        using detect_from_true_cycle[of i "waitingFor process" ps1] run l1 by simp
      then show False using ac1 by (simp add: acyclic_def)
    qed
    then show ?thesis using Some run Cons.IH[OF ac']
      by (auto simp: ps1_def[symmetric] split: sum.splits bool.splits)
  qed
qed

lemma detectDeadlock_no_panic:
  assumes "dependents_present ps"
  shows "\<not> isl (fst (detectDeadlock ids ps))"
  using assms
proof (induction ids arbitrary: ps)
  case Nil
  then show ?case by simp
next
  case (Cons i ids)
  show ?case
  proof (cases "fmlookup ps i")
    case None
    then show ?thesis using Cons by simp
  next
    case (Some process)
    define ps1 where "ps1 = fmupd i (process\<lparr>receivedProbes := Map.empty\<rparr>) ps"
    have g1: "same_graph ps ps1" unfolding ps1_def by (rule same_graph_reset[OF Some])
    have l1: "fmlookup ps1 i = Some (process\<lparr>receivedProbes := Map.empty\<rparr>)" by (simp add: ps1_def)
    obtain r ps' where run: "detect_from i (waitingFor process) ps1 = (r, ps')"
      by (cases "detect_from i (waitingFor process) ps1")
    have g2: "same_graph ps1 ps'" using detect_from_same_graph[of ps1 i "waitingFor process"] run by simp
    have dp1: "dependents_present ps1" using same_graph_present[OF g1 Cons.prems] .
    have dp': "dependents_present ps'" using same_graph_present[OF g2 dp1] .
    have "\<not> isl r" using detect_from_no_panic[OF dp1, of i "waitingFor process"] l1 run by simp
    then show ?thesis using Some run Cons.IH[OF dp']
      by (auto simp: ps1_def[symmetric] split: sum.splits bool.splits)
  qed
qed

text \<open>The scenario without a closing edge, as a table of each program.\<close>

definition chain_processes :: "Process list" where
  "chain_processes =
     [\<lparr>ID = 0, Neighbors = [1]\<rparr>, \<lparr>ID = 1, Neighbors = [2]\<rparr>,
      \<lparr>ID = 2, Neighbors = [3]\<rparr>, \<lparr>ID = 3, Neighbors = []\<rparr>]"

definition cmh_chain_processes :: cmh_processes where
  "cmh_chain_processes =
     fmupd 1 \<lparr>pid = 1, waitingFor = [2], receivedProbes = Map.empty\<rparr>
    (fmupd 2 \<lparr>pid = 2, waitingFor = [3], receivedProbes = Map.empty\<rparr>
    (fmupd 3 \<lparr>pid = 3, waitingFor = [], receivedProbes = Map.empty\<rparr> fmempty))"

lemma chain_edges_increase: "(a, b) \<in> edges chain_processes \<Longrightarrow> a < b"
proof -
  assume e: "(a, b) \<in> edges chain_processes"
  then have "a = 0 \<or> a = 1 \<or> a = 2 \<or> a = 3"
    by (auto simp: edges_def chain_processes_def)
  then show ?thesis using e
    by (auto simp: edges_def chain_processes_def)
qed

lemma chain_acyclic: "acyclic (edges chain_processes)"
  by (rule acyclicI_order[where f = "\<lambda>i. - i"]) (use chain_edges_increase in force)

lemma cmh_chain_edges_increase: "(a, b) \<in> cmh_edges cmh_chain_processes \<Longrightarrow> a < b"
  by (auto simp: cmh_edges_def cmh_chain_processes_def split: if_splits)

lemma cmh_chain_acyclic: "acyclic (cmh_edges cmh_chain_processes)"
  by (rule acyclicI_order[where f = "\<lambda>i. - i"]) (use cmh_chain_edges_increase in force)

lemma chain_in_range: "neighbors_in_range chain_processes"
  by (simp add: neighbors_in_range_def chain_processes_def)

lemma cmh_chain_present: "dependents_present cmh_chain_processes"
  by (auto simp: dependents_present_def cmh_chain_processes_def split: if_splits)

text \<open>
  \<open>C1\<close>: on an acyclic wait-for graph no detection reaches deadlock confirmation,
  whichever process initiates it.  \<^verbatim>\<open>runDDFS\<close> started at any process never returns
  true, from any state of its maps; on a table whose neighbour ids are indices it
  returns false and \<^verbatim>\<open>DetectDeadlock\<close> answers "No deadlock detected.".
  \<^verbatim>\<open>detectDeadlock\<close> of the recursive probe program never confirms, in any order of
  initiators; it reports no deadlock when every dependent is a process of the table;
  and \<^verbatim>\<open>sendProbe\<close> from an initiator to one of its dependents never returns true.
\<close>

theorem C1_acyclic_never_confirms:
  assumes "acyclic (edges ps)" and "acyclic (cmh_edges cps)"
  shows "fst (runDDFS ps start start st) \<noteq> Inr True
       \<and> (neighbors_in_range ps \<and> 0 \<le> start \<and> start < int (length ps) \<longrightarrow>
            fst (runDDFS ps start start st) = Inr False
          \<and> (\<exists>res'. DetectDeadlock \<lparr>processes = ps, globalMessageCounter = g\<rparr> \<lparr>ProcessID = start\<rparr> res
                       = Inr (\<lparr>processes = ps, globalMessageCounter = g\<rparr>, res')
                   \<and> DeadlockStatus res' = ''No deadlock detected.''))
       \<and> fst (detectDeadlock ids cps) \<noteq> Inr True
       \<and> (dependents_present cps \<longrightarrow> fst (detectDeadlock ids cps) = Inr False)
       \<and> (\<forall>i p d. fmlookup cps i = Some p \<and> d \<in> set (waitingFor p) \<longrightarrow>
             fst (sendProbe i i d cps) \<noteq> Inr True)"
proof -
  have nt: "fst (runDDFS ps start start st') \<noteq> Inr True" for st'
  proof
    assume "fst (runDDFS ps start start st') = Inr True"
    then have "(start, start) \<in> (edges ps)\<^sup>+" by (rule runDDFS_true_path(1))
    then show False using assms(1) by (simp add: acyclic_def)
  qed
  have f: "fst (runDDFS ps start start st') = Inr False"
    if "neighbors_in_range ps" "0 \<le> start" "start < int (length ps)" for st'
  proof -
    have "\<not> isl (fst (runDDFS ps start start st'))" using runDDFS_no_panic(1)[OF that] .
    then obtain b where "fst (runDDFS ps start start st') = Inr b"
      by (cases "fst (runDDFS ps start start st')") auto
    then show ?thesis using nt[of st'] by (cases b) auto
  qed
  have d: "\<exists>res'. DetectDeadlock \<lparr>processes = ps, globalMessageCounter = g\<rparr> \<lparr>ProcessID = start\<rparr> res
                       = Inr (\<lparr>processes = ps, globalMessageCounter = g\<rparr>, res')
                   \<and> DeadlockStatus res' = ''No deadlock detected.''"
    if "neighbors_in_range ps" "0 \<le> start" "start < int (length ps)"
    using f[OF that, of "\<lparr>visited = Map.empty, messageCounts = Map.empty, localCounter = 0\<rparr>"] that
    by (auto simp: DetectDeadlock_def Let_def split: prod.splits sum.splits)
  have c1: "fst (detectDeadlock ids cps) \<noteq> Inr True"
    using detectDeadlock_acyclic[OF assms(2)] .
  have c2: "fst (detectDeadlock ids cps) = Inr False" if "dependents_present cps"
  proof -
    have "\<not> isl (fst (detectDeadlock ids cps))" using detectDeadlock_no_panic[OF that] .
    then obtain b where "fst (detectDeadlock ids cps) = Inr b"
      by (cases "fst (detectDeadlock ids cps)") auto
    then show ?thesis using c1 by (cases b) auto
  qed
  have c3: "fst (sendProbe i i d cps) \<noteq> Inr True"
    if "fmlookup cps i = Some p" "d \<in> set (waitingFor p)" for i p d
  proof
    assume "fst (sendProbe i i d cps) = Inr True"
    then have "(d, i) \<in> (cmh_edges cps)\<^sup>+" by (rule sendProbe_true_path(1))
    moreover have "(i, d) \<in> cmh_edges cps" using that by (auto simp: cmh_edges_def)
    ultimately have "(i, i) \<in> (cmh_edges cps)\<^sup>+" by (rule trancl_into_trancl2[rotated])
    then show False using assms(2) by (simp add: acyclic_def)
  qed
  show ?thesis using nt f d c1 c2 c3 by blast
qed

theorem C1_acyclic_never_confirms_witness:
  "acyclic (edges chain_processes) \<and> acyclic (cmh_edges cmh_chain_processes)
   \<and> neighbors_in_range chain_processes \<and> dependents_present cmh_chain_processes
   \<and> fst (runDDFS chain_processes 0 0 zero_ddfs) = Inr False
   \<and> fst (detectDeadlock [1, 2, 3] cmh_chain_processes) = Inr False"
proof -
  have r: "(0::int) \<le> 0 \<and> 0 < int (length chain_processes)" by (simp add: chain_processes_def)
  show ?thesis
    using C1_acyclic_never_confirms[OF chain_acyclic cmh_chain_acyclic,
            of 0 zero_ddfs 0 zero_response "[1, 2, 3]"]
          chain_acyclic cmh_chain_acyclic chain_in_range cmh_chain_present r
    by blast
qed

subsection \<open>The request handlers\<close>

text \<open>
  \<open>C7\<close>, as the specification states it, asks that an add request with an
  out-of-range process id is rejected and leaves the service unchanged.  \<^verbatim>\<open>AddProcess\<close>
  checks nothing: adding id 99 to the four-process table succeeds and appends.
\<close>

theorem C7_add_request_not_rejected:
  "add_Message (snd (AddProcess \<lparr>processes = main_processes, globalMessageCounter = 0\<rparr>
                       \<lparr>req_ID = 99, req_Neighbors = [1]\<rparr> \<lparr>add_Message = []\<rparr>))
     = ''Process 99 added successfully!''
   \<and> fst (AddProcess \<lparr>processes = main_processes, globalMessageCounter = 0\<rparr>
                       \<lparr>req_ID = 99, req_Neighbors = [1]\<rparr> \<lparr>add_Message = []\<rparr>)
     \<noteq> \<lparr>processes = main_processes, globalMessageCounter = 0\<rparr>
   \<and> processes (fst (AddProcess \<lparr>processes = main_processes, globalMessageCounter = 0\<rparr>
                       \<lparr>req_ID = 99, req_Neighbors = [1]\<rparr> \<lparr>add_Message = []\<rparr>))
     = main_processes @ [\<lparr>ID = 99, Neighbors = [1]\<rparr>]"
  by (simp add: AddProcess_def Let_def show_int_def main_processes_def)

text \<open>
  \<open>C7\<close>, amended: a detection request whose process id is outside the table gets the
  response "Invalid Process ID" (its other fields as the caller passed them), without
  a panic, and the service is unchanged.  An add request is never rejected: whatever
  its id, the process is appended and the answer is "Process <id> added successfully!".
\<close>

theorem C7_invalid_detection_rejected:
  assumes "ProcessID req < 0 \<or> int (length (processes ds)) \<le> ProcessID req"
  shows "DetectDeadlock ds req res = Inr (ds, res\<lparr>Message := ''Invalid Process ID''\<rparr>)
       \<and> (\<forall>areq ares. AddProcess ds areq ares =
             (ds\<lparr>processes := processes ds @ [\<lparr>ID = req_ID areq, Neighbors = req_Neighbors areq\<rparr>]\<rparr>,
              ares\<lparr>add_Message := ''Process '' @ show_int (req_ID areq) @ '' added successfully!''\<rparr>))"
  using assms by (auto simp: DetectDeadlock_def AddProcess_def Let_def)

theorem C7_invalid_detection_rejected_witness:
  "((99::int) < 0 \<or> int (length main_processes) \<le> 99)
   \<and> DetectDeadlock \<lparr>processes = main_processes, globalMessageCounter = 0\<rparr> \<lparr>ProcessID = 99\<rparr> zero_response
       = Inr (\<lparr>processes = main_processes, globalMessageCounter = 0\<rparr>,
              \<lparr>Message = ''Invalid Process ID'', DeadlockStatus = [], MessageCounts = Map.empty,
                 TotalMessages = 0\<rparr>)"
proof -
  have h: "ProcessID \<lparr>ProcessID = 99\<rparr> < 0
           \<or> int (length (processes \<lparr>processes = main_processes, globalMessageCounter = 0\<rparr>))
               \<le> ProcessID \<lparr>ProcessID = 99\<rparr>"
    by (simp add: main_processes_def)
  show ?thesis
    using C7_invalid_detection_rejected[OF h, of zero_response] h
    by (simp add: zero_response_def)
qed

text \<open>A cycle of the wait-for graph through \<open>start\<close>, as the list of its processes.\<close>

definition is_edge :: "Process list \<Rightarrow> int \<Rightarrow> int \<Rightarrow> bool" where
  "is_edge ps i j = (0 \<le> i \<and> i < int (length ps) \<and> j \<in> set (Neighbors (ps ! nat i)))"

fun path_edges :: "Process list \<Rightarrow> int list \<Rightarrow> bool" where
  "path_edges ps (a # b # rest) = (is_edge ps a b \<and> path_edges ps (b # rest))"
| "path_edges ps [a] = True"
| "path_edges ps [] = True"

definition cycle_path :: "Process list \<Rightarrow> int \<Rightarrow> int list \<Rightarrow> bool" where
  "cycle_path ps start path = (path \<noteq> [] \<and> hd path = start \<and> path_edges ps (path @ [start]))"

definition two_cycle_a :: "Process list" where
  "two_cycle_a = [\<lparr>ID = 0, Neighbors = [1]\<rparr>, \<lparr>ID = 1, Neighbors = [0]\<rparr>, \<lparr>ID = 2, Neighbors = []\<rparr>]"

definition two_cycle_b :: "Process list" where
  "two_cycle_b = [\<lparr>ID = 0, Neighbors = [2]\<rparr>, \<lparr>ID = 1, Neighbors = []\<rparr>, \<lparr>ID = 2, Neighbors = [0]\<rparr>]"

lemma two_cycle_a_response:
  "DetectDeadlock \<lparr>processes = two_cycle_a, globalMessageCounter = 0\<rparr> \<lparr>ProcessID = 0\<rparr> zero_response
     = Inr (\<lparr>processes = two_cycle_a, globalMessageCounter = 0\<rparr>,
            \<lparr>Message = ''Deadlock detection completed for Process 0'',
               DeadlockStatus = ''Deadlock confirmed!'', MessageCounts = [0 \<mapsto> 2], TotalMessages = 2\<rparr>)"
  by (simp add: DetectDeadlock_def runDDFS.simps two_cycle_a_def zero_response_def Let_def
                flag_def count_def show_int_def)

lemma two_cycle_b_response:
  "DetectDeadlock \<lparr>processes = two_cycle_b, globalMessageCounter = 0\<rparr> \<lparr>ProcessID = 0\<rparr> zero_response
     = Inr (\<lparr>processes = two_cycle_b, globalMessageCounter = 0\<rparr>,
            \<lparr>Message = ''Deadlock detection completed for Process 0'',
               DeadlockStatus = ''Deadlock confirmed!'', MessageCounts = [0 \<mapsto> 2], TotalMessages = 2\<rparr>)"
  by (simp add: DetectDeadlock_def runDDFS.simps two_cycle_b_def zero_response_def Let_def
                flag_def count_def show_int_def)

lemma no_common_cycle: "cycle_path two_cycle_a 0 path \<Longrightarrow> cycle_path two_cycle_b 0 path \<Longrightarrow> False"
proof -
  assume a: "cycle_path two_cycle_a 0 path" and b: "cycle_path two_cycle_b 0 path"
  then obtain rest where p: "path = 0 # rest" by (cases path) (auto simp: cycle_path_def)
  show False
  proof (cases rest)
    case Nil
    then show ?thesis using a p by (simp add: cycle_path_def is_edge_def two_cycle_a_def)
  next
    case (Cons x xs)
    then have "is_edge two_cycle_a 0 x" "is_edge two_cycle_b 0 x"
      using a b p by (simp_all add: cycle_path_def)
    then show ?thesis by (simp add: is_edge_def two_cycle_a_def two_cycle_b_def)
  qed
qed

text \<open>
  \<open>C4\<close>, as the specification states it, has the confirmed status come together with
  the cycle path.  The response has no such field, and its fields do not determine a
  cycle: two tables with different cycles through process 0 get the same response.
\<close>

theorem C4_response_determines_no_path:
  "\<not> (\<exists>path_of :: DeadlockResponse \<Rightarrow> int list.
        \<forall>ds req res ds' res'.
          DetectDeadlock ds req res = Inr (ds', res') \<and> DeadlockStatus res' = ''Deadlock confirmed!''
          \<longrightarrow> cycle_path (processes ds) (ProcessID req) (path_of res'))"
proof
  assume "\<exists>path_of :: DeadlockResponse \<Rightarrow> int list.
        \<forall>ds req res ds' res'.
          DetectDeadlock ds req res = Inr (ds', res') \<and> DeadlockStatus res' = ''Deadlock confirmed!''
          \<longrightarrow> cycle_path (processes ds) (ProcessID req) (path_of res')"
  then obtain path_of :: "DeadlockResponse \<Rightarrow> int list" where
    h: "\<And>ds req res ds' res'.
          DetectDeadlock ds req res = Inr (ds', res') \<Longrightarrow> DeadlockStatus res' = ''Deadlock confirmed!''
          \<Longrightarrow> cycle_path (processes ds) (ProcessID req) (path_of res')"
    by blast
  let ?R = "\<lparr>Message = ''Deadlock detection completed for Process 0'',
               DeadlockStatus = ''Deadlock confirmed!'', MessageCounts = [0 \<mapsto> 2], TotalMessages = 2\<rparr>"
  have "cycle_path two_cycle_a 0 (path_of ?R)"
    using h[OF two_cycle_a_response] by simp
  moreover have "cycle_path two_cycle_b 0 (path_of ?R)"
    using h[OF two_cycle_b_response] by simp
  ultimately show False by (rule no_common_cycle)
qed

text \<open>
  Completeness of the traversal.  A process is \<open>explored\<close> in a state when every
  neighbour of it is marked and none is the origin.  When \<^verbatim>\<open>runDDFS\<close> returns false,
  the current process and every process marked during the call are explored.
\<close>

definition explored :: "Process list \<Rightarrow> int \<Rightarrow> ddfs \<Rightarrow> int \<Rightarrow> bool" where
  "explored ps origin st v = (\<forall>w. (v, w) \<in> edges ps \<longrightarrow> w \<noteq> origin \<and> flag (visited st) w)"

lemma explored_mono:
  "explored ps origin st v \<Longrightarrow> (\<And>i. flag (visited st) i \<Longrightarrow> flag (visited st') i) \<Longrightarrow>
     explored ps origin st' v"
  by (auto simp: explored_def)

lemma runDDFS_marks_current: "flag (visited (snd (runDDFS ps origin current st))) current"
proof -
  have "flag (visited (st\<lparr>visited := (visited st)(current \<mapsto> True)\<rparr>)) current"
    by (simp add: flag_def)
  then show ?thesis
    using visited_grows(2)[of "st\<lparr>visited := (visited st)(current \<mapsto> True)\<rparr>" current ps origin current]
    by (simp add: runDDFS.simps Let_def)
qed

lemma runDDFS_false_explored:
  "runDDFS ps origin current st = (Inr False, st') \<Longrightarrow>
     (\<forall>v. flag (visited st') v \<and> (\<not> flag (visited st) v \<or> v = current) \<longrightarrow> explored ps origin st' v)"
  "runDDFS_loop ps origin current ns st = (Inr False, st') \<Longrightarrow>
     (\<forall>n \<in> set ns. n \<noteq> origin \<and> flag (visited st') n) \<and>
     (\<forall>v. flag (visited st') v \<and> \<not> flag (visited st) v \<longrightarrow> explored ps origin st' v)"
proof (induct ps origin current st and ps origin current ns st arbitrary: st' and st'
       rule: runDDFS_runDDFS_loop.induct)
  case (1 ps origin current st)
  define st1 where "st1 = st\<lparr>visited := (visited st)(current \<mapsto> True)\<rparr>"
  have rng: "\<not> (current < 0 \<or> int (length ps) \<le> current)"
    using 1(2) by (auto simp: runDDFS.simps Let_def split: if_splits)
  have loop: "runDDFS_loop ps origin current (Neighbors (ps ! nat current)) st1 = (Inr False, st')"
    using 1(2) rng by (simp add: runDDFS.simps Let_def st1_def)
  note ih = 1(1)[OF st1_def rng loop]
  have cur: "explored ps origin st' current"
    using ih rng by (auto simp: explored_def edges_def)
  have "explored ps origin st' v" if "flag (visited st') v" "\<not> flag (visited st) v \<or> v = current" for v
  proof (cases "v = current")
    case True
    then show ?thesis using cur by simp
  next
    case False
    then have "\<not> flag (visited st1) v" using that by (simp add: st1_def flag_def)
    then show ?thesis using ih that by blast
  qed
  then show ?case by blast
next
  case (2 ps origin current st)
  then show ?case by simp
next
  case (3 ps origin current neighbor rest st)
  define st1 where "st1 = st\<lparr>messageCounts := (messageCounts st)(origin \<mapsto> count (messageCounts st) origin + 1),
                    localCounter := localCounter st + 1\<rparr>"
  have v1: "visited st1 = visited st" by (simp add: st1_def)
  have ne: "neighbor \<noteq> origin"
    using 3(4) by (auto simp: Let_def split: if_splits)
  show ?case
  proof (cases "flag (visited st1) neighbor")
    case True
    have loop: "runDDFS_loop ps origin current rest st1 = (Inr False, st')"
      using 3(4) ne True by (simp add: Let_def st1_def[symmetric])
    note ih = 3(3)[OF st1_def ne _ loop]
    have "flag (visited st') neighbor"
      using visited_grows(2)[OF True, of ps origin current rest] loop by simp
    then show ?thesis using ih True ne v1 by auto
  next
    case nv: False
    obtain r st2 where run: "runDDFS ps origin neighbor st1 = (r, st2)"
      by (cases "runDDFS ps origin neighbor st1")
    have r: "r = Inr False"
      using 3(4) ne nv run by (auto simp: Let_def st1_def[symmetric] split: sum.splits bool.splits)
    define b where "b = False"
    have rb: "r = Inr b" "b = False" using r by (simp_all add: b_def)
    have loop: "runDDFS_loop ps origin current rest st2 = (Inr False, st')"
      using 3(4) ne nv run r by (simp add: Let_def st1_def[symmetric])
    have run': "runDDFS ps origin neighbor st1 = (Inr False, st2)" using run r by simp
    note ih1 = 3(1)[OF st1_def ne nv run']
    note ih2 = 3(2)[OF st1_def ne nv run[symmetric] rb loop]
    have mono: "flag (visited st2) i \<Longrightarrow> flag (visited st') i" for i
      using visited_grows(2)[of st2 i ps origin current rest] loop by simp
    have n2: "flag (visited st2) neighbor"
      using runDDFS_marks_current[of ps origin neighbor st1] run by simp
    have "explored ps origin st' v" if "flag (visited st') v" "\<not> flag (visited st) v" for v
    proof (cases "flag (visited st2) v")
      case True
      then have "explored ps origin st2 v" using ih1 that v1 by auto
      then show ?thesis using mono by (rule explored_mono)
    next
      case False
      then show ?thesis using ih2 that by blast
    qed
    then show ?thesis using ih2 ne mono[OF n2] by auto
  qed
qed

lemma runDDFS_false_no_cycle:
  assumes "runDDFS ps start start st = (Inr False, st')" and "\<forall>i. \<not> flag (visited st) i"
  shows "(start, start) \<notin> (edges ps)\<^sup>+"
proof -
  have ex: "explored ps start st' v" if "flag (visited st') v" for v
    using runDDFS_false_explored(1)[OF assms(1)] assms(2) that by blast
  have s: "flag (visited st') start"
    using runDDFS_marks_current[of ps start start st] assms(1) by simp
  have "flag (visited st') x \<and> x \<noteq> start" if "(start, x) \<in> (edges ps)\<^sup>+" for x
    using that
  proof (induct rule: trancl_induct)
    case (base y)
    then show ?case using ex[OF s] by (auto simp: explored_def)
  next
    case (step y z)
    then show ?case using ex[of y] by (auto simp: explored_def)
  qed
  then show ?thesis by blast
qed


text \<open>
  \<open>C4\<close>, amended: for a process id inside the table, once the traversal has completed
  (it did not panic), \<^verbatim>\<open>DetectDeadlock\<close> leaves the service as it is and returns the
  completion message, the message counts of the traversal, and the status
  "Deadlock confirmed!" when the traversal found a deadlock, "No deadlock detected."
  otherwise; the traversal finds one exactly when the process lies on a cycle of the
  wait-for graph.  The response carries no path.
\<close>

theorem C4_detect_status:
  assumes "0 \<le> ProcessID req" and "ProcessID req < int (length (processes ds))"
    and "\<not> isl (fst (runDDFS (processes ds) (ProcessID req) (ProcessID req) zero_ddfs))"
  shows "\<exists>b st. runDDFS (processes ds) (ProcessID req) (ProcessID req) zero_ddfs = (Inr b, st)
       \<and> DetectDeadlock ds req res =
           Inr (ds, res\<lparr>Message := ''Deadlock detection completed for Process '' @ show_int (ProcessID req),
                        MessageCounts := messageCounts st,
                        TotalMessages := localCounter st,
                        DeadlockStatus := (if b then ''Deadlock confirmed!'' else ''No deadlock detected.'')\<rparr>)
       \<and> (b = ((ProcessID req, ProcessID req) \<in> (edges (processes ds))\<^sup>+))"
proof -
  let ?s = "ProcessID req"
  obtain r st where run: "runDDFS (processes ds) ?s ?s zero_ddfs = (r, st)"
    by (cases "runDDFS (processes ds) ?s ?s zero_ddfs")
  then obtain b where r: "r = Inr b" using assms(3) by (cases r) auto
  have d: "DetectDeadlock ds req res =
           Inr (ds, res\<lparr>Message := ''Deadlock detection completed for Process '' @ show_int ?s,
                        MessageCounts := messageCounts st,
                        TotalMessages := localCounter st,
                        DeadlockStatus := (if b then ''Deadlock confirmed!'' else ''No deadlock detected.'')\<rparr>)"
    using assms(1,2) run r by (simp add: DetectDeadlock_def Let_def zero_ddfs_def)
  have c: "b = ((?s, ?s) \<in> (edges (processes ds))\<^sup>+)"
  proof (cases b)
    case True
    then show ?thesis using runDDFS_true_path(1)[of "processes ds" ?s ?s zero_ddfs] run r by simp
  next
    case False
    have "\<forall>i. \<not> flag (visited zero_ddfs) i" by (simp add: zero_ddfs_def flag_def)
    then show ?thesis using runDDFS_false_no_cycle[of "processes ds" ?s zero_ddfs st] run r False by simp
  qed
  show ?thesis using run r d c by blast
qed

theorem C4_detect_status_witness:
  "(0::int) \<le> 0 \<and> 0 < int (length main_processes)
   \<and> \<not> isl (fst (runDDFS main_processes 0 0 zero_ddfs))
   \<and> DetectDeadlock \<lparr>processes = main_processes, globalMessageCounter = 0\<rparr> \<lparr>ProcessID = 0\<rparr> zero_response
       = Inr (\<lparr>processes = main_processes, globalMessageCounter = 0\<rparr>,
              \<lparr>Message = ''Deadlock detection completed for Process 0'',
                 DeadlockStatus = ''Deadlock confirmed!'', MessageCounts = [0 \<mapsto> 4], TotalMessages = 4\<rparr>)
   \<and> (0, 0) \<in> (edges main_processes)\<^sup>+"
proof -
  let ?ds = "\<lparr>processes = main_processes, globalMessageCounter = 0\<rparr>"
  let ?req = "\<lparr>ProcessID = 0\<rparr>"
  have run: "fst (runDDFS main_processes 0 0 zero_ddfs) = Inr True"
    by (simp add: runDDFS.simps main_processes_def zero_ddfs_def Let_def flag_def count_def)
  have h1: "0 \<le> ProcessID ?req" by simp
  have h2: "ProcessID ?req < int (length (processes ?ds))" by (simp add: main_processes_def)
  have h3: "\<not> isl (fst (runDDFS (processes ?ds) (ProcessID ?req) (ProcessID ?req) zero_ddfs))"
    using run by simp
  have d: "DetectDeadlock ?ds ?req zero_response
       = Inr (?ds, \<lparr>Message = ''Deadlock detection completed for Process 0'',
                 DeadlockStatus = ''Deadlock confirmed!'', MessageCounts = [0 \<mapsto> 4], TotalMessages = 4\<rparr>)"
    by (simp add: DetectDeadlock_def runDDFS.simps main_processes_def zero_response_def Let_def
                  flag_def count_def show_int_def)
  from C4_detect_status[OF h1 h2 h3, of zero_response] obtain b st where
    b: "runDDFS (processes ?ds) (ProcessID ?req) (ProcessID ?req) zero_ddfs = (Inr b, st)"
       "b = ((ProcessID ?req, ProcessID ?req) \<in> (edges (processes ?ds))\<^sup>+)" by blast
  have "b" using b(1) run by simp
  then have "(0, 0) \<in> (edges main_processes)\<^sup>+" using b(2) by simp
  then show ?thesis using run d h2 by simp
qed

section \<open>The actor program\<close>

text \<open>
  Every process runs two goroutines, \<^verbatim>\<open>Run\<close> (the ticker that starts a session) and
  \<^verbatim>\<open>handleProbes\<close> (the loop that takes probes from the channel); both change the
  process only while they hold its lock.  The model has the processes of the system in
  a list; a pointer to a process is its index in that list.  The record \<open>Actor\<close> is the
  struct \<^verbatim>\<open>Process\<close> of this program, with \<^verbatim>\<open>ID\<close> as \<open>actor_ID\<close> and \<^verbatim>\<open>visited\<close> as
  \<open>actor_visited\<close>; the channel \<^verbatim>\<open>probeChan\<close> is the list of the probes it holds, the
  oldest first.  Left out are the lock, the wait group, the stop channel and the
  configuration, and the \<^verbatim>\<open>AckChan\<close> of a probe: acknowledgments change no process.
  A slice of ints is the list of its elements when the probe is handled; the backing
  arrays that slices share are the subject of the last section.
\<close>

record Probe =
  SessionID :: int
  Initiator :: int
  Sender :: int
  Visited :: "int list"

record Actor =
  actor_ID :: int
  successors :: "nat list"
  probeChan :: "Probe list"
  actor_visited :: "int \<rightharpoonup> bool"
  messagesSent :: int
  deadlockCache :: "int \<rightharpoonup> bool"

definition NewProcess :: "int \<Rightarrow> Actor" where
  "NewProcess i =
     \<lparr>actor_ID = i, successors = [], probeChan = [], actor_visited = Map.empty,
      messagesSent = 0, deadlockCache = Map.empty\<rparr>"

text \<open>
  What one iteration of \<^verbatim>\<open>handleProbes\<close> does with the probe it took, under the lock:
  it logs a deadlock (\<open>Report\<close>, with the process id and the path logged), or builds a
  new probe that it then hands to \<^verbatim>\<open>sendProbe\<close> (\<open>Forward\<close>), or does nothing.
\<close>

datatype outcome = Report int "int list" | Forward Probe | Drop

definition handleProbe :: "Actor \<Rightarrow> Probe \<Rightarrow> Actor \<times> outcome" where
  "handleProbe p probe =
     (if Initiator probe = actor_ID p \<and> \<not> flag (deadlockCache p) (SessionID probe) then
        (p\<lparr>deadlockCache := (deadlockCache p)(SessionID probe \<mapsto> True)\<rparr>,
         Report (actor_ID p) (Visited probe))
      else if \<not> flag (actor_visited p) (SessionID probe) \<and> length (successors p) > 0 then
        (p\<lparr>actor_visited := (actor_visited p)(SessionID probe \<mapsto> True)\<rparr>,
         Forward \<lparr>SessionID = SessionID probe, Initiator = Initiator probe,
                  Sender = actor_ID p, Visited = Visited probe @ [actor_ID p]\<rparr>)
      else (p, Drop))"

text \<open>The loop of \<^verbatim>\<open>handleProbes\<close> over the probes one process receives, in their order.\<close>

fun handleProbes :: "Actor \<Rightarrow> Probe list \<Rightarrow> Actor \<times> outcome list" where
  "handleProbes p [] = (p, [])"
| "handleProbes p (probe # rest) =
     (case handleProbe p probe of
        (p', out) \<Rightarrow> (case handleProbes p' rest of (p'', outs) \<Rightarrow> (p'', out # outs)))"

text \<open>
  \<^verbatim>\<open>sendProbe\<close> of process \<open>i\<close> puts the probe into the channel of its successors, one
  after the other, and counts each; it returns early when the deadline passes or the
  context is cancelled.  The argument \<open>targets\<close> is the successors it reaches before it
  returns: a prefix of the list, all of it when nothing times out.
\<close>

definition enqueue :: "Probe \<Rightarrow> nat \<Rightarrow> Actor list \<Rightarrow> Actor list" where
  "enqueue probe j sys =
     (if j < length sys then sys[j := (sys ! j)\<lparr>probeChan := probeChan (sys ! j) @ [probe]\<rparr>]
      else sys)"

definition count_sent :: "nat \<Rightarrow> Actor list \<Rightarrow> Actor list" where
  "count_sent i sys = sys[i := (sys ! i)\<lparr>messagesSent := messagesSent (sys ! i) + 1\<rparr>]"

fun Process_sendProbe :: "nat \<Rightarrow> Probe \<Rightarrow> nat list \<Rightarrow> Actor list \<Rightarrow> Actor list" where
  "Process_sendProbe i probe [] sys = sys"
| "Process_sendProbe i probe (succ # rest) sys =
     Process_sendProbe i probe rest (count_sent i (enqueue probe succ sys))"

text \<open>
  A tick of \<^verbatim>\<open>Run\<close> in process \<open>i\<close>, with the session id the clock gives and the number \<open>k\<close>
  of successors that \<^verbatim>\<open>sendProbe\<close> reaches.
\<close>

definition initiate :: "nat \<Rightarrow> int \<Rightarrow> nat \<Rightarrow> Actor list \<Rightarrow> Actor list" where
  "initiate i sessionID k sys =
     (let p = sys ! i in
      if length (successors p) > 0 then
        Process_sendProbe i
          \<lparr>SessionID = sessionID, Initiator = actor_ID p, Sender = actor_ID p, Visited = [actor_ID p]\<rparr>
          (take k (successors p))
          (sys[i := p\<lparr>actor_visited := (actor_visited p)(sessionID \<mapsto> True)\<rparr>])
      else sys)"

text \<open>
  One iteration of \<^verbatim>\<open>handleProbes\<close> in process \<open>i\<close>: it takes the oldest probe of the
  channel, handles it, and sends the new probe if there is one.  With an empty channel
  the goroutine waits: nothing happens.
\<close>

definition deliver :: "nat \<Rightarrow> nat \<Rightarrow> Actor list \<Rightarrow> Actor list \<times> outcome option" where
  "deliver i k sys =
     (case probeChan (sys ! i) of
        [] \<Rightarrow> (sys, None)
      | probe # rest \<Rightarrow>
          (case handleProbe ((sys ! i)\<lparr>probeChan := rest\<rparr>) probe of
             (p', Forward newProbe) \<Rightarrow>
               (Process_sendProbe i newProbe (take k (successors p')) (sys[i := p']),
                Some (Forward newProbe))
           | (p', out) \<Rightarrow> (sys[i := p'], Some out)))"

text \<open>
  The states a system reaches from \<open>init\<close> by ticks and deliveries, in any order and
  with any session ids.  A step is taken as a whole: the change of the process under
  its lock together with the sends that follow it.
\<close>

inductive reachable :: "Actor list \<Rightarrow> Actor list \<Rightarrow> bool" for init :: "Actor list" where
  start: "reachable init init"
| tick: "reachable init sys \<Longrightarrow> i < length sys \<Longrightarrow> reachable init (initiate i sessionID k sys)"
| recv: "reachable init sys \<Longrightarrow> i < length sys \<Longrightarrow> reachable init (fst (deliver i k sys))"

text \<open>A run that follows a schedule of deliveries, with the outcome of each.\<close>

fun deliveries :: "(nat \<times> nat) list \<Rightarrow> Actor list \<Rightarrow> Actor list \<times> (nat \<times> outcome) list" where
  "deliveries [] sys = (sys, [])"
| "deliveries ((i, k) # rest) sys =
     (case deliver i k sys of
        (sys', None) \<Rightarrow> deliveries rest sys'
      | (sys', Some out) \<Rightarrow>
          (case deliveries rest sys' of (sys'', outs) \<Rightarrow> (sys'', (i, out) # outs)))"

text \<open>The system of \<^verbatim>\<open>main\<close>, and the same four processes without the closing edge.\<close>

definition ring4 :: "Actor list" where
  "ring4 = [(NewProcess 0)\<lparr>successors := [1]\<rparr>, (NewProcess 1)\<lparr>successors := [2]\<rparr>,
            (NewProcess 2)\<lparr>successors := [3]\<rparr>, (NewProcess 3)\<lparr>successors := [0]\<rparr>]"


text \<open>
  \<open>C5\<close>: in the system of four processes with the edges 0, 1, 2, 3 and back to 0, a
  session that process 0 initiates is confirmed at process 0 with the path
  \<open>[0, 1, 2, 3]\<close> and initiator 0, after four probes have been sent (one by each
  process), whatever the session id.
\<close>

theorem C5_ring_confirms:
  "snd (deliveries [(1, 1), (2, 1), (3, 1), (0, 1)] (initiate 0 sid 1 ring4)) =
     [(1, Forward \<lparr>SessionID = sid, Initiator = 0, Sender = 1, Visited = [0, 1]\<rparr>),
      (2, Forward \<lparr>SessionID = sid, Initiator = 0, Sender = 2, Visited = [0, 1, 2]\<rparr>),
      (3, Forward \<lparr>SessionID = sid, Initiator = 0, Sender = 3, Visited = [0, 1, 2, 3]\<rparr>),
      (0, Report 0 [0, 1, 2, 3])]
   \<and> map messagesSent (fst (deliveries [(1, 1), (2, 1), (3, 1), (0, 1)] (initiate 0 sid 1 ring4)))
       = [1, 1, 1, 1]
   \<and> map probeChan (fst (deliveries [(1, 1), (2, 1), (3, 1), (0, 1)] (initiate 0 sid 1 ring4)))
       = [[], [], [], []]
   \<and> flag (deadlockCache (fst (deliveries [(1, 1), (2, 1), (3, 1), (0, 1)] (initiate 0 sid 1 ring4)) ! 0)) sid"
  by (simp add: initiate_def deliver_def handleProbe_def enqueue_def count_sent_def
      ring4_def NewProcess_def Let_def flag_def)

subsection \<open>What a step changes\<close>

text \<open>
  \<open>sent_to q p p'\<close>: process \<open>p'\<close> is \<open>p\<close> but for its message counter and for copies of
  the probe \<open>q\<close> added to its channel.
\<close>

definition sent_to :: "Probe \<Rightarrow> Actor \<Rightarrow> Actor \<Rightarrow> bool" where
  "sent_to q p p' =
     (actor_ID p' = actor_ID p \<and> successors p' = successors p \<and>
      actor_visited p' = actor_visited p \<and> deadlockCache p' = deadlockCache p \<and>
      set (probeChan p') \<subseteq> insert q (set (probeChan p)))"

lemma sent_to_refl: "sent_to q p p"
  by (auto simp: sent_to_def)

lemma sent_to_trans: "sent_to q a b \<Longrightarrow> sent_to q b c \<Longrightarrow> sent_to q a c"
  by (auto simp: sent_to_def)

lemma enqueue_frame:
  "length (enqueue q j sys) = length sys"
  "m < length sys \<Longrightarrow> sent_to q (sys ! m) (enqueue q j sys ! m)"
  by (auto simp: enqueue_def sent_to_def nth_list_update)

lemma count_sent_frame:
  "length (count_sent i sys) = length sys"
  "m < length sys \<Longrightarrow> sent_to q (sys ! m) (count_sent i sys ! m)"
  by (cases "i < length sys"; auto simp: count_sent_def sent_to_def nth_list_update)+

lemma Process_sendProbe_length: "length (Process_sendProbe i q ts sys) = length sys"
  by (induction ts arbitrary: sys) (simp_all add: enqueue_frame count_sent_frame)

lemma Process_sendProbe_frame:
  "m < length sys \<Longrightarrow> sent_to q (sys ! m) (Process_sendProbe i q ts sys ! m)"
proof (induction ts arbitrary: sys)
  case Nil
  then show ?case by (simp add: sent_to_refl)
next
  case (Cons t ts)
  let ?s1 = "enqueue q t sys"
  let ?s2 = "count_sent i ?s1"
  have a: "sent_to q (sys ! m) (?s1 ! m)" using Cons.prems by (rule enqueue_frame(2))
  have b: "sent_to q (?s1 ! m) (?s2 ! m)"
    using Cons.prems by (intro count_sent_frame(2)) (simp add: enqueue_frame)
  have c: "sent_to q (?s2 ! m) (Process_sendProbe i q ts ?s2 ! m)"
    using Cons.prems by (intro Cons.IH) (simp add: enqueue_frame count_sent_frame)
  show ?case using sent_to_trans[OF sent_to_trans[OF a b] c] by simp
qed


lemma handleProbe_cases:
  obtains
    (report) "Initiator q = actor_ID p" "\<not> flag (deadlockCache p) (SessionID q)"
      "handleProbe p q = (p\<lparr>deadlockCache := (deadlockCache p)(SessionID q \<mapsto> True)\<rparr>,
                          Report (actor_ID p) (Visited q))"
  | (forward) "\<not> (Initiator q = actor_ID p \<and> \<not> flag (deadlockCache p) (SessionID q))"
      "\<not> flag (actor_visited p) (SessionID q)" "successors p \<noteq> []"
      "handleProbe p q = (p\<lparr>actor_visited := (actor_visited p)(SessionID q \<mapsto> True)\<rparr>,
                          Forward \<lparr>SessionID = SessionID q, Initiator = Initiator q,
                                   Sender = actor_ID p, Visited = Visited q @ [actor_ID p]\<rparr>)"
  | (drop) "\<not> (Initiator q = actor_ID p \<and> \<not> flag (deadlockCache p) (SessionID q))"
      "flag (actor_visited p) (SessionID q) \<or> successors p = []"
      "handleProbe p q = (p, Drop)"
  by (cases "Initiator q = actor_ID p \<and> \<not> flag (deadlockCache p) (SessionID q)";
      cases "\<not> flag (actor_visited p) (SessionID q) \<and> length (successors p) > 0")
     (auto simp: handleProbe_def)

text \<open>
  \<open>evolves sys sys'\<close>: the same processes with the same successors, and no flag of
  \<^verbatim>\<open>visited\<close> or \<^verbatim>\<open>deadlockCache\<close> that was set is unset.
\<close>

definition evolves :: "Actor list \<Rightarrow> Actor list \<Rightarrow> bool" where
  "evolves sys sys' =
     (length sys' = length sys \<and>
      (\<forall>m < length sys.
         actor_ID (sys' ! m) = actor_ID (sys ! m) \<and> successors (sys' ! m) = successors (sys ! m) \<and>
         (\<forall>s. flag (actor_visited (sys ! m)) s \<longrightarrow> flag (actor_visited (sys' ! m)) s) \<and>
         (\<forall>s. flag (deadlockCache (sys ! m)) s \<longrightarrow> flag (deadlockCache (sys' ! m)) s)))"

lemma evolves_refl: "evolves sys sys"
  by (simp add: evolves_def)

lemma evolves_trans: "evolves a b \<Longrightarrow> evolves b c \<Longrightarrow> evolves a c"
  by (auto simp: evolves_def)

lemma evolves_update:
  assumes "i < length sys" "actor_ID p' = actor_ID (sys ! i)" "successors p' = successors (sys ! i)"
    "\<And>s. flag (actor_visited (sys ! i)) s \<Longrightarrow> flag (actor_visited p') s"
    "\<And>s. flag (deadlockCache (sys ! i)) s \<Longrightarrow> flag (deadlockCache p') s"
  shows "evolves sys (sys[i := p'])"
  using assms by (auto simp: evolves_def nth_list_update)

lemma evolves_sendProbe: "evolves sys (Process_sendProbe i q ts sys)"
  using Process_sendProbe_frame[of _ sys q i ts]
  by (auto simp: evolves_def Process_sendProbe_length sent_to_def)

lemma initiate_evolves:
  assumes "i < length sys"
  shows "evolves sys (initiate i sessionID k sys)"
proof (cases "successors (sys ! i) = []")
  case True
  then show ?thesis by (simp add: initiate_def evolves_refl)
next
  case False
  let ?p = "sys ! i"
  let ?s1 = "sys[i := ?p\<lparr>actor_visited := (actor_visited ?p)(sessionID \<mapsto> True)\<rparr>]"
  have "evolves sys ?s1"
    using assms by (intro evolves_update) (auto simp: flag_def)
  then show ?thesis
    using False evolves_trans[OF _ evolves_sendProbe] by (simp add: initiate_def Let_def)
qed

lemma deliver_evolves:
  assumes "i < length sys"
  shows "evolves sys (fst (deliver i k sys))"
proof (cases "probeChan (sys ! i)")
  case Nil
  then show ?thesis by (simp add: deliver_def evolves_refl)
next
  case (Cons q rest)
  let ?p0 = "(sys ! i)\<lparr>probeChan := rest\<rparr>"
  show ?thesis
  proof (cases ?p0 q rule: handleProbe_cases)
    case report
    have "evolves sys (sys[i := ?p0\<lparr>deadlockCache := (deadlockCache ?p0)(SessionID q \<mapsto> True)\<rparr>])"
      using assms by (intro evolves_update) (auto simp: flag_def)
    then show ?thesis using Cons report by (simp add: deliver_def)
  next
    case forward
    have "evolves sys (sys[i := ?p0\<lparr>actor_visited := (actor_visited ?p0)(SessionID q \<mapsto> True)\<rparr>])"
      using assms by (intro evolves_update) (auto simp: flag_def)
    then show ?thesis
      using Cons forward evolves_trans[OF _ evolves_sendProbe] by (simp add: deliver_def)
  next
    case drop
    have "evolves sys (sys[i := ?p0])"
      using assms by (intro evolves_update) auto
    then show ?thesis using Cons drop by (simp add: deliver_def)
  qed
qed

lemma reachable_evolves: "reachable init sys \<Longrightarrow> evolves init sys"
proof (induction rule: reachable.induct)
  case start
  show ?case by (rule evolves_refl)
next
  case (tick sys i sessionID k)
  then show ?case using evolves_trans[OF _ initiate_evolves] by blast
next
  case (recv sys i k)
  then show ?case using evolves_trans[OF _ deliver_evolves] by blast
qed

lemma update_chan_frame:
  assumes "i < length sys" "m < length sys"
    and "set (probeChan p') \<subseteq> set (probeChan (sys ! i))"
  shows "set (probeChan (sys[i := p'] ! m)) \<subseteq> set (probeChan (sys ! m))"
  using assms by (auto simp: nth_list_update)

lemma initiate_chan:
  assumes "i < length sys" "m < length sys"
    and "q' \<in> set (probeChan (initiate i sessionID k sys ! m))"
  shows "q' \<in> set (probeChan (sys ! m))
       \<or> (SessionID q' = sessionID \<and> Initiator q' = actor_ID (sys ! i) \<and> successors (sys ! i) \<noteq> [])"
proof (cases "successors (sys ! i) = []")
  case True
  then show ?thesis using assms by (simp add: initiate_def)
next
  case False
  let ?p = "sys ! i"
  let ?q = "\<lparr>SessionID = sessionID, Initiator = actor_ID ?p, Sender = actor_ID ?p, Visited = [actor_ID ?p]\<rparr>"
  let ?s1 = "sys[i := ?p\<lparr>actor_visited := (actor_visited ?p)(sessionID \<mapsto> True)\<rparr>]"
  have "sent_to ?q (?s1 ! m) (Process_sendProbe i ?q (take k (successors ?p)) ?s1 ! m)"
    using assms(2) by (intro Process_sendProbe_frame) simp
  then have "q' = ?q \<or> q' \<in> set (probeChan (?s1 ! m))"
    using assms(3) False by (auto simp: initiate_def Let_def sent_to_def)
  moreover have "set (probeChan (?s1 ! m)) \<subseteq> set (probeChan (sys ! m))"
    using assms(1,2) by (intro update_chan_frame) auto
  ultimately show ?thesis using False by auto
qed

lemma initiate_marks:
  assumes "i < length sys" "successors (sys ! i) \<noteq> []"
  shows "flag (actor_visited (initiate i sessionID k sys ! i)) sessionID"
proof -
  let ?p = "sys ! i"
  let ?q = "\<lparr>SessionID = sessionID, Initiator = actor_ID ?p, Sender = actor_ID ?p, Visited = [actor_ID ?p]\<rparr>"
  let ?s1 = "sys[i := ?p\<lparr>actor_visited := (actor_visited ?p)(sessionID \<mapsto> True)\<rparr>]"
  have "sent_to ?q (?s1 ! i) (Process_sendProbe i ?q (take k (successors ?p)) ?s1 ! i)"
    using assms(1) by (intro Process_sendProbe_frame) simp
  then show ?thesis using assms by (simp add: initiate_def Let_def sent_to_def flag_def)
qed

lemma initiate_cache:
  assumes "i < length sys" "m < length sys"
  shows "deadlockCache (initiate i sessionID k sys ! m) = deadlockCache (sys ! m)"
proof (cases "successors (sys ! i) = []")
  case True
  then show ?thesis by (simp add: initiate_def)
next
  case False
  let ?p = "sys ! i"
  let ?q = "\<lparr>SessionID = sessionID, Initiator = actor_ID ?p, Sender = actor_ID ?p, Visited = [actor_ID ?p]\<rparr>"
  let ?s1 = "sys[i := ?p\<lparr>actor_visited := (actor_visited ?p)(sessionID \<mapsto> True)\<rparr>]"
  have "sent_to ?q (?s1 ! m) (Process_sendProbe i ?q (take k (successors ?p)) ?s1 ! m)"
    using assms(2) by (intro Process_sendProbe_frame) simp
  then show ?thesis using assms False
    by (auto simp: initiate_def Let_def sent_to_def nth_list_update)
qed

lemma deliver_chan:
  assumes "i < length sys" "m < length sys"
    and "q' \<in> set (probeChan (fst (deliver i k sys) ! m))"
  shows "q' \<in> set (probeChan (sys ! m))
       \<or> (\<exists>q \<in> set (probeChan (sys ! i)). SessionID q' = SessionID q \<and> Initiator q' = Initiator q)"
proof (cases "probeChan (sys ! i)")
  case Nil
  then show ?thesis using assms by (simp add: deliver_def)
next
  case (Cons q rest)
  let ?p0 = "(sys ! i)\<lparr>probeChan := rest\<rparr>"
  have sub: "set (probeChan (sys[i := p'] ! m)) \<subseteq> set (probeChan (sys ! m))"
    if "probeChan p' = rest" for p'
    using assms(1,2) that Cons by (intro update_chan_frame) auto
  show ?thesis
  proof (cases ?p0 q rule: handleProbe_cases)
    case report
    then show ?thesis using Cons assms(3) sub[of "?p0\<lparr>deadlockCache := (deadlockCache ?p0)(SessionID q \<mapsto> True)\<rparr>"]
      by (auto simp: deliver_def)
  next
    case forward
    let ?p' = "?p0\<lparr>actor_visited := (actor_visited ?p0)(SessionID q \<mapsto> True)\<rparr>"
    let ?n = "\<lparr>SessionID = SessionID q, Initiator = Initiator q,
               Sender = actor_ID ?p0, Visited = Visited q @ [actor_ID ?p0]\<rparr>"
    have "sent_to ?n (sys[i := ?p'] ! m) (Process_sendProbe i ?n (take k (successors ?p')) (sys[i := ?p']) ! m)"
      using assms(2) by (intro Process_sendProbe_frame) simp
    then have "q' = ?n \<or> q' \<in> set (probeChan (sys[i := ?p'] ! m))"
      using assms(3) Cons forward by (auto simp: deliver_def sent_to_def)
    then show ?thesis using sub[of ?p'] Cons by auto
  next
    case drop
    then show ?thesis using Cons assms(3) sub[of ?p0] by (auto simp: deliver_def)
  qed
qed

lemma deliver_cache:
  assumes "i < length sys" "m < length sys"
    and "flag (deadlockCache (fst (deliver i k sys) ! m)) s"
  shows "flag (deadlockCache (sys ! m)) s
       \<or> (m = i \<and> (\<exists>q \<in> set (probeChan (sys ! i)). SessionID q = s \<and> Initiator q = actor_ID (sys ! i)))"
proof (cases "probeChan (sys ! i)")
  case Nil
  then show ?thesis using assms by (simp add: deliver_def)
next
  case (Cons q rest)
  let ?p0 = "(sys ! i)\<lparr>probeChan := rest\<rparr>"
  show ?thesis
  proof (cases ?p0 q rule: handleProbe_cases)
    case report
    then show ?thesis using Cons assms
      by (auto simp: deliver_def nth_list_update flag_def split: if_splits)
  next
    case forward
    let ?p' = "?p0\<lparr>actor_visited := (actor_visited ?p0)(SessionID q \<mapsto> True)\<rparr>"
    let ?n = "\<lparr>SessionID = SessionID q, Initiator = Initiator q,
               Sender = actor_ID ?p0, Visited = Visited q @ [actor_ID ?p0]\<rparr>"
    have "sent_to ?n (sys[i := ?p'] ! m) (Process_sendProbe i ?n (take k (successors ?p')) (sys[i := ?p']) ! m)"
      using assms(2) by (intro Process_sendProbe_frame) simp
    then show ?thesis using Cons forward assms
      by (auto simp: deliver_def sent_to_def nth_list_update split: if_splits)
  next
    case drop
    then show ?thesis using Cons assms
      by (auto simp: deliver_def nth_list_update split: if_splits)
  qed
qed

subsection \<open>The session invariant\<close>

text \<open>
  A system as \<^verbatim>\<open>main\<close> builds it: processes made by \<^verbatim>\<open>NewProcess\<close> with ids that differ,
  then given their successors.
\<close>

definition initial :: "Actor list \<Rightarrow> bool" where
  "initial sys =
     (distinct (map actor_ID sys) \<and>
      (\<forall>p \<in> set sys. probeChan p = [] \<and> actor_visited p = Map.empty \<and>
                       deadlockCache p = Map.empty \<and> messagesSent p = 0))"

text \<open>
  In every state: the initiator of a probe that waits in a channel has its
  \<^verbatim>\<open>visited\<close> flag set for the probe's session (\<^verbatim>\<open>Run\<close> sets it before it sends), and a
  process that has reported a session has its \<^verbatim>\<open>visited\<close> flag set for it.
\<close>

definition session_inv :: "Actor list \<Rightarrow> bool" where
  "session_inv sys =
     (distinct (map actor_ID sys) \<and>
      (\<forall>i < length sys. \<forall>q \<in> set (probeChan (sys ! i)). \<forall>m < length sys.
          actor_ID (sys ! m) = Initiator q \<longrightarrow> flag (actor_visited (sys ! m)) (SessionID q)) \<and>
      (\<forall>m < length sys. \<forall>s. flag (deadlockCache (sys ! m)) s \<longrightarrow> flag (actor_visited (sys ! m)) s))"

lemma initial_session_inv: "initial sys \<Longrightarrow> session_inv sys"
  by (auto simp: initial_def session_inv_def flag_def)

lemma evolves_ids: "evolves sys sys' \<Longrightarrow> map actor_ID sys' = map actor_ID sys"
  by (rule nth_equalityI) (auto simp: evolves_def)

lemma distinct_ids_eq:
  assumes "distinct (map actor_ID sys)" "m < length sys" "i < length sys"
    "actor_ID (sys ! m) = actor_ID (sys ! i)"
  shows "m = i"
proof (rule ccontr)
  assume "m \<noteq> i"
  then have "map actor_ID sys ! m \<noteq> map actor_ID sys ! i"
    using assms(1-3) by (simp add: distinct_conv_nth)
  then show False using assms by simp
qed

lemma session_inv_initiate:
  assumes inv: "session_inv sys" and i: "i < length sys"
  shows "session_inv (initiate i sessionID k sys)"
proof -
  let ?R = "initiate i sessionID k sys"
  have ev: "evolves sys ?R" using i by (rule initiate_evolves)
  have len: "length ?R = length sys" using ev by (simp add: evolves_def)
  have d: "distinct (map actor_ID ?R)" using inv evolves_ids[OF ev] by (simp add: session_inv_def)
  have a: "flag (actor_visited (?R ! m)) (SessionID q)"
    if "j < length sys" "q \<in> set (probeChan (?R ! j))" "m < length sys"
       "actor_ID (?R ! m) = Initiator q" for j q m
  proof -
    have idm: "actor_ID (?R ! m) = actor_ID (sys ! m)" using ev that(3) by (simp add: evolves_def)
    from initiate_chan[OF i that(1,2)] show ?thesis
    proof
      assume "q \<in> set (probeChan (sys ! j))"
      then have "flag (actor_visited (sys ! m)) (SessionID q)"
        using inv that idm by (auto simp: session_inv_def)
      then show ?thesis using ev that(3) by (auto simp: evolves_def)
    next
      assume n: "SessionID q = sessionID \<and> Initiator q = actor_ID (sys ! i) \<and> successors (sys ! i) \<noteq> []"
      then have "m = i" using distinct_ids_eq[of sys m i] inv that(3,4) i idm
        by (simp add: session_inv_def)
      then show ?thesis using initiate_marks[OF i, of sessionID k] n by simp
    qed
  qed
  have b: "flag (actor_visited (?R ! m)) s" if "m < length sys" "flag (deadlockCache (?R ! m)) s" for m s
  proof -
    have "flag (deadlockCache (sys ! m)) s" using that initiate_cache[OF i that(1)] by simp
    then have "flag (actor_visited (sys ! m)) s" using inv that(1) by (auto simp: session_inv_def)
    then show ?thesis using ev that(1) by (auto simp: evolves_def)
  qed
  show ?thesis unfolding session_inv_def using d a b len by auto
qed

lemma session_inv_deliver:
  assumes inv: "session_inv sys" and i: "i < length sys"
  shows "session_inv (fst (deliver i k sys))"
proof -
  let ?R = "fst (deliver i k sys)"
  have ev: "evolves sys ?R" using i by (rule deliver_evolves)
  have len: "length ?R = length sys" using ev by (simp add: evolves_def)
  have d: "distinct (map actor_ID ?R)" using inv evolves_ids[OF ev] by (simp add: session_inv_def)
  have a: "flag (actor_visited (?R ! m)) (SessionID q)"
    if "j < length sys" "q \<in> set (probeChan (?R ! j))" "m < length sys"
       "actor_ID (?R ! m) = Initiator q" for j q m
  proof -
    have idm: "actor_ID (?R ! m) = actor_ID (sys ! m)" using ev that(3) by (simp add: evolves_def)
    have "\<exists>j0 q0. j0 < length sys \<and> q0 \<in> set (probeChan (sys ! j0)) \<and>
            SessionID q = SessionID q0 \<and> Initiator q = Initiator q0"
      using deliver_chan[OF i that(1,2)] that(1) i by blast
    then obtain q0 j0 where
      q0: "j0 < length sys" "q0 \<in> set (probeChan (sys ! j0))"
          "SessionID q = SessionID q0" "Initiator q = Initiator q0"
      by blast
    then have "flag (actor_visited (sys ! m)) (SessionID q)"
      using inv that idm by (auto simp: session_inv_def)
    then show ?thesis using ev that(3) by (auto simp: evolves_def)
  qed
  have b: "flag (actor_visited (?R ! m)) s" if "m < length sys" "flag (deadlockCache (?R ! m)) s" for m s
  proof -
    from deliver_cache[OF i that] have "flag (actor_visited (sys ! m)) s"
    proof
      assume "flag (deadlockCache (sys ! m)) s"
      then show ?thesis using inv that(1) by (auto simp: session_inv_def)
    next
      assume "m = i \<and> (\<exists>q \<in> set (probeChan (sys ! i)). SessionID q = s \<and> Initiator q = actor_ID (sys ! i))"
      then show ?thesis using inv i by (auto simp: session_inv_def)
    qed
    then show ?thesis using ev that(1) by (auto simp: evolves_def)
  qed
  show ?thesis unfolding session_inv_def using d a b len by auto
qed

lemma reachable_session_inv:
  assumes "reachable init sys" "session_inv init"
  shows "session_inv sys"
  using assms
proof (induction rule: reachable.induct)
  case start
  then show ?case by simp
next
  case (tick sys i sessionID k)
  then show ?case using session_inv_initiate by blast
next
  case (recv sys i k)
  then show ?case using session_inv_deliver by blast
qed

lemma reachable_trans:
  assumes "reachable b c" "reachable a b"
  shows "reachable a c"
  using assms
proof (induction rule: reachable.induct)
  case start
  then show ?case by simp
next
  case (tick sys i sessionID k)
  then show ?case using reachable.tick by blast
next
  case (recv sys i k)
  then show ?case using reachable.recv by blast
qed

lemma confirmed_drop:
  assumes "session_inv sys" "i < length sys" "Initiator q = actor_ID (sys ! i)"
    and "flag (deadlockCache (sys ! i)) (SessionID q)"
  shows "handleProbe (sys ! i) q = (sys ! i, Drop)"
proof -
  have "flag (actor_visited (sys ! i)) (SessionID q)"
    using assms by (auto simp: session_inv_def)
  then show ?thesis using assms(4) by (simp add: handleProbe_def)
qed

text \<open>
  The system of \<^verbatim>\<open>main\<close> after process 0 has started session 7 and the probe has gone
  round: the closing probe waits in the channel of process 0.
\<close>

definition ring4_closing :: "Actor list" where
  "ring4_closing = fst (deliver 3 1 (fst (deliver 2 1 (fst (deliver 1 1 (initiate 0 7 1 ring4))))))"

lemma ring4_closing_eq:
  "ring4_closing =
     [\<lparr>actor_ID = 0, successors = [1],
        probeChan = [\<lparr>SessionID = 7, Initiator = 0, Sender = 3, Visited = [0, 1, 2, 3]\<rparr>],
        actor_visited = [7 \<mapsto> True], messagesSent = 1, deadlockCache = Map.empty\<rparr>,
      \<lparr>actor_ID = 1, successors = [2], probeChan = [],
        actor_visited = [7 \<mapsto> True], messagesSent = 1, deadlockCache = Map.empty\<rparr>,
      \<lparr>actor_ID = 2, successors = [3], probeChan = [],
        actor_visited = [7 \<mapsto> True], messagesSent = 1, deadlockCache = Map.empty\<rparr>,
      \<lparr>actor_ID = 3, successors = [0], probeChan = [],
        actor_visited = [7 \<mapsto> True], messagesSent = 1, deadlockCache = Map.empty\<rparr>]"
  by (simp add: ring4_closing_def initiate_def deliver_def handleProbe_def enqueue_def count_sent_def
      ring4_def NewProcess_def Let_def flag_def)

lemma ring4_initial: "initial ring4"
  by (simp add: initial_def ring4_def NewProcess_def)

lemma ring4_closing_reachable: "reachable ring4 ring4_closing"
proof -
  have l: "length (initiate i s k sys) = length sys" if "i < length sys" for i s k sys
    using initiate_evolves[OF that] by (simp add: evolves_def)
  have d: "length (fst (deliver i k sys)) = length sys" if "i < length sys" for i k sys
    using deliver_evolves[OF that] by (simp add: evolves_def)
  have 0: "reachable ring4 (initiate 0 7 1 ring4)"
    by (rule reachable.tick[OF reachable.start]) (simp add: ring4_def)
  have l0: "length (initiate 0 7 1 ring4) = 4" using l[of 0 ring4] by (simp add: ring4_def)
  have 1: "reachable ring4 (fst (deliver 1 1 (initiate 0 7 1 ring4)))"
    by (rule reachable.recv[OF 0]) (use l0 in simp)
  have l1: "length (fst (deliver 1 1 (initiate 0 7 1 ring4))) = 4" using d l0 by simp
  have 2: "reachable ring4 (fst (deliver 2 1 (fst (deliver 1 1 (initiate 0 7 1 ring4)))))"
    by (rule reachable.recv[OF 1]) (use l1 in simp)
  have l2: "length (fst (deliver 2 1 (fst (deliver 1 1 (initiate 0 7 1 ring4))))) = 4" using d l1 by simp
  show ?thesis unfolding ring4_closing_def
    by (rule reachable.recv[OF 2]) (use l2 in simp)
qed

text \<open>
  The invariant is needed: a process that has reported a session it never started
  (its \<^verbatim>\<open>visited\<close> flag is not set) would forward the probe when it comes again.  No
  state of a running system is like that.
\<close>

lemma redelivery_without_invariant:
  "snd (handleProbe ((NewProcess 0)\<lparr>successors := [1], deadlockCache := [7 \<mapsto> True]\<rparr>)
         \<lparr>SessionID = 7, Initiator = 0, Sender = 3, Visited = [0, 1, 2, 3]\<rparr>)
     = Forward \<lparr>SessionID = 7, Initiator = 0, Sender = 0, Visited = [0, 1, 2, 3, 0]\<rparr>"
  by (simp add: handleProbe_def NewProcess_def flag_def)

text \<open>
  \<open>C3\<close>: in a system started as \<^verbatim>\<open>main\<close> starts it, when a probe whose initiator is the
  handling process arrives (it waits in the channel) and the session is not yet in the
  \<^verbatim>\<open>deadlockCache\<close> of that process, handling it reports the deadlock with the path
  of the probe and marks the session reported; handling the same probe again, at once
  or in any later state of the system, reports nothing and forwards nothing, and
  leaves the process as it is.
\<close>

theorem C3_closing_probe_reported_once:
  assumes "initial init" and "reachable init sys" and "i < length sys"
    and "q \<in> set (probeChan (sys ! i))"
    and "Initiator q = actor_ID (sys ! i)"
    and "\<not> flag (deadlockCache (sys ! i)) (SessionID q)"
  shows "handleProbe (sys ! i) q =
           ((sys ! i)\<lparr>deadlockCache := (deadlockCache (sys ! i))(SessionID q \<mapsto> True)\<rparr>,
            Report (actor_ID (sys ! i)) (Visited q))
       \<and> handleProbe ((sys ! i)\<lparr>deadlockCache := (deadlockCache (sys ! i))(SessionID q \<mapsto> True)\<rparr>) q =
           ((sys ! i)\<lparr>deadlockCache := (deadlockCache (sys ! i))(SessionID q \<mapsto> True)\<rparr>, Drop)
       \<and> (probeChan (sys ! i) = q # rest \<longrightarrow>
            snd (deliver i k sys) = Some (Report (actor_ID (sys ! i)) (Visited q))
          \<and> flag (deadlockCache (fst (deliver i k sys) ! i)) (SessionID q)
          \<and> (\<forall>sys'. reachable (fst (deliver i k sys)) sys' \<longrightarrow>
                handleProbe (sys' ! i) q = (sys' ! i, Drop)))"
proof -
  have inv: "session_inv sys"
    using reachable_session_inv[OF assms(2) initial_session_inv[OF assms(1)]] .
  have vis: "flag (actor_visited (sys ! i)) (SessionID q)"
    using inv assms(3-5) by (auto simp: session_inv_def)
  have 1: "handleProbe (sys ! i) q =
           ((sys ! i)\<lparr>deadlockCache := (deadlockCache (sys ! i))(SessionID q \<mapsto> True)\<rparr>,
            Report (actor_ID (sys ! i)) (Visited q))"
    using assms(5,6) by (simp add: handleProbe_def)
  have 2: "handleProbe ((sys ! i)\<lparr>deadlockCache := (deadlockCache (sys ! i))(SessionID q \<mapsto> True)\<rparr>) q =
           ((sys ! i)\<lparr>deadlockCache := (deadlockCache (sys ! i))(SessionID q \<mapsto> True)\<rparr>, Drop)"
    using vis by (simp add: handleProbe_def flag_def)
  have 3: "snd (deliver i k sys) = Some (Report (actor_ID (sys ! i)) (Visited q))
          \<and> flag (deadlockCache (fst (deliver i k sys) ! i)) (SessionID q)
          \<and> (\<forall>sys'. reachable (fst (deliver i k sys)) sys' \<longrightarrow>
                handleProbe (sys' ! i) q = (sys' ! i, Drop))"
    if ch: "probeChan (sys ! i) = q # rest"
  proof -
    let ?s1 = "fst (deliver i k sys)"
    have h: "handleProbe ((sys ! i)\<lparr>probeChan := rest\<rparr>) q =
           ((sys ! i)\<lparr>probeChan := rest, deadlockCache := (deadlockCache (sys ! i))(SessionID q \<mapsto> True)\<rparr>,
            Report (actor_ID (sys ! i)) (Visited q))"
      using assms(5,6) by (simp add: handleProbe_def)
    have a: "snd (deliver i k sys) = Some (Report (actor_ID (sys ! i)) (Visited q))"
      using ch h by (simp add: deliver_def)
    have b: "flag (deadlockCache (?s1 ! i)) (SessionID q)"
      using ch h assms(3) by (simp add: deliver_def flag_def)
    have r1: "reachable init ?s1" using reachable.recv[OF assms(2,3)] .
    have c: "handleProbe (sys' ! i) q = (sys' ! i, Drop)" if r: "reachable ?s1 sys'" for sys'
    proof -
      have ev1: "evolves sys ?s1" using deliver_evolves[OF assms(3)] .
      have ev: "evolves ?s1 sys'" using reachable_evolves[OF r] .
      have li: "i < length ?s1" using ev1 assms(3) by (simp add: evolves_def)
      have inv': "session_inv sys'"
        using reachable_session_inv[OF reachable_trans[OF r r1] initial_session_inv[OF assms(1)]] .
      have "i < length sys'" using ev li by (simp add: evolves_def)
      moreover have "Initiator q = actor_ID (sys' ! i)"
        using ev ev1 li assms(3,5) by (simp add: evolves_def)
      moreover have "flag (deadlockCache (sys' ! i)) (SessionID q)"
        using ev li b by (auto simp: evolves_def)
      ultimately show ?thesis using confirmed_drop[OF inv'] by blast
    qed
    show ?thesis using a b c by blast
  qed
  show ?thesis using 1 2 3 by blast
qed

theorem C3_closing_probe_reported_once_witness:
  "initial ring4 \<and> reachable ring4 ring4_closing \<and> 0 < length ring4_closing
   \<and> \<lparr>SessionID = 7, Initiator = 0, Sender = 3, Visited = [0, 1, 2, 3]\<rparr> \<in> set (probeChan (ring4_closing ! 0))
   \<and> Initiator \<lparr>SessionID = 7, Initiator = 0, Sender = 3, Visited = [0, 1, 2, 3]\<rparr> = actor_ID (ring4_closing ! 0)
   \<and> \<not> flag (deadlockCache (ring4_closing ! 0)) 7
   \<and> probeChan (ring4_closing ! 0) = [\<lparr>SessionID = 7, Initiator = 0, Sender = 3, Visited = [0, 1, 2, 3]\<rparr>]
   \<and> snd (deliver 0 1 ring4_closing) = Some (Report 0 [0, 1, 2, 3])
   \<and> handleProbe (fst (deliver 0 1 ring4_closing) ! 0)
        \<lparr>SessionID = 7, Initiator = 0, Sender = 3, Visited = [0, 1, 2, 3]\<rparr>
       = (fst (deliver 0 1 ring4_closing) ! 0, Drop)"
proof -
  let ?q = "\<lparr>SessionID = 7, Initiator = 0, Sender = 3, Visited = [0, 1, 2, 3]\<rparr>"
  have h3: "0 < length ring4_closing" by (simp add: ring4_closing_eq)
  have h4: "?q \<in> set (probeChan (ring4_closing ! 0))" by (simp add: ring4_closing_eq)
  have h5: "Initiator ?q = actor_ID (ring4_closing ! 0)" by (simp add: ring4_closing_eq)
  have h6: "\<not> flag (deadlockCache (ring4_closing ! 0)) (SessionID ?q)"
    by (simp add: ring4_closing_eq flag_def)
  have ch: "probeChan (ring4_closing ! 0) = ?q # []" by (simp add: ring4_closing_eq)
  have self: "reachable (fst (deliver 0 1 ring4_closing)) (fst (deliver 0 1 ring4_closing))"
    by (rule reachable.start)
  show ?thesis
    using C3_closing_probe_reported_once[OF ring4_initial ring4_closing_reachable h3 h4 h5 h6,
            of "[]" 1] ring4_initial ring4_closing_reachable h3 h4 h5 h6 ch self
    by simp
qed

subsection \<open>Forwarding at most once\<close>

fun is_forward_for :: "int \<Rightarrow> outcome \<Rightarrow> bool" where
  "is_forward_for s (Forward q) = (SessionID q = s)"
| "is_forward_for s (Report i path) = False"
| "is_forward_for s Drop = False"

definition forwards_for :: "int \<Rightarrow> outcome list \<Rightarrow> nat" where
  "forwards_for s outs = length (filter (is_forward_for s) outs)"

lemma handleProbe_visited_mono:
  "flag (actor_visited p) s \<Longrightarrow> flag (actor_visited (fst (handleProbe p q))) s"
  by (cases p q rule: handleProbe_cases) (auto simp: flag_def)

lemma handleProbe_forward_sets:
  "is_forward_for s (snd (handleProbe p q)) \<Longrightarrow>
     \<not> flag (actor_visited p) s \<and> flag (actor_visited (fst (handleProbe p q))) s"
  by (cases p q rule: handleProbe_cases) (auto simp: flag_def)

lemma handleProbes_visited_mono:
  "flag (actor_visited p) s \<Longrightarrow> flag (actor_visited (fst (handleProbes p qs))) s"
proof (induction qs arbitrary: p)
  case Nil
  then show ?case by simp
next
  case (Cons q qs)
  obtain p' out where h: "handleProbe p q = (p', out)" by (cases "handleProbe p q")
  have "flag (actor_visited p') s" using handleProbe_visited_mono[OF Cons.prems, of q] h by simp
  then have "flag (actor_visited (fst (handleProbes p' qs))) s" by (rule Cons.IH)
  then show ?case using h by (auto split: prod.splits)
qed

lemma handleProbes_forward_bound:
  "forwards_for s (snd (handleProbes p qs)) \<le> (if flag (actor_visited p) s then 0 else 1)"
proof (induction qs arbitrary: p)
  case Nil
  show ?case by (simp add: forwards_for_def)
next
  case (Cons q qs)
  obtain p' out where h: "handleProbe p q = (p', out)" by (cases "handleProbe p q")
  obtain p'' outs where hs: "handleProbes p' qs = (p'', outs)" by (cases "handleProbes p' qs")
  have ih: "forwards_for s outs \<le> (if flag (actor_visited p') s then 0 else 1)"
    using Cons.IH[of p'] hs by simp
  have res: "forwards_for s (snd (handleProbes p (q # qs)))
              = (if is_forward_for s out then 1 else 0) + forwards_for s outs"
    using h hs by (simp add: forwards_for_def)
  show ?case
  proof (cases "is_forward_for s out")
    case True
    then have "\<not> flag (actor_visited p) s" "flag (actor_visited p') s"
      using handleProbe_forward_sets[of s p q] h by simp_all
    then show ?thesis using res ih True by simp
  next
    case False
    have "flag (actor_visited p) s \<Longrightarrow> flag (actor_visited p') s"
      using handleProbe_visited_mono[of p s q] h by simp
    then show ?thesis using res ih False by (auto split: if_splits)
  qed
qed

text \<open>
  \<open>C2\<close>: whatever probes a process receives, and however many of them belong to one
  session, it forwards a probe of that session at most once; once its \<^verbatim>\<open>visited\<close> flag
  for the session is set it forwards none and the flag stays set, through the
  handling of any probes and through any steps of the system.
\<close>

theorem C2_forward_at_most_once:
  "forwards_for s (snd (handleProbes p qs)) \<le> 1
   \<and> (flag (actor_visited p) s \<longrightarrow>
        forwards_for s (snd (handleProbes p qs)) = 0
      \<and> flag (actor_visited (fst (handleProbes p qs))) s)
   \<and> (\<forall>sys sys' m. reachable sys sys' \<and> m < length sys \<and> flag (actor_visited (sys ! m)) s \<longrightarrow>
        flag (actor_visited (sys' ! m)) s)"
proof -
  have 1: "forwards_for s (snd (handleProbes p qs)) \<le> 1"
    using handleProbes_forward_bound[of s p qs] by (simp split: if_splits)
  have 2: "forwards_for s (snd (handleProbes p qs)) = 0" if "flag (actor_visited p) s"
    using handleProbes_forward_bound[of s p qs] that by simp
  have 3: "flag (actor_visited (sys' ! m)) s"
    if "reachable sys sys'" "m < length sys" "flag (actor_visited (sys ! m)) s" for sys sys' m
    using reachable_evolves[OF that(1)] that(2,3) by (auto simp: evolves_def)
  show ?thesis using 1 2 3 handleProbes_visited_mono by blast
qed

theorem C2_forward_at_most_once_witness:
  "flag (actor_visited (ring4_closing ! 1)) 7
   \<and> forwards_for 7 (snd (handleProbes (ring4_closing ! 1)
        [\<lparr>SessionID = 7, Initiator = 0, Sender = 0, Visited = [0]\<rparr>,
         \<lparr>SessionID = 7, Initiator = 0, Sender = 0, Visited = [0]\<rparr>])) = 0
   \<and> reachable ring4_closing (fst (deliver 0 1 ring4_closing)) \<and> 1 < length ring4_closing
   \<and> flag (actor_visited (fst (deliver 0 1 ring4_closing) ! 1)) 7
   \<and> forwards_for 7 (snd (handleProbes (ring4 ! 1)
        [\<lparr>SessionID = 7, Initiator = 0, Sender = 0, Visited = [0]\<rparr>,
         \<lparr>SessionID = 7, Initiator = 0, Sender = 0, Visited = [0]\<rparr>,
         \<lparr>SessionID = 7, Initiator = 0, Sender = 0, Visited = [0]\<rparr>])) = 1"
proof -
  have f: "flag (actor_visited (ring4_closing ! 1)) 7" by (simp add: ring4_closing_eq flag_def)
  have l: "1 < length ring4_closing" by (simp add: ring4_closing_eq)
  have r: "reachable ring4_closing (fst (deliver 0 1 ring4_closing))"
    by (rule reachable.recv[OF reachable.start]) (simp add: ring4_closing_eq)
  have e: "forwards_for 7 (snd (handleProbes (ring4 ! 1)
        [\<lparr>SessionID = 7, Initiator = 0, Sender = 0, Visited = [0]\<rparr>,
         \<lparr>SessionID = 7, Initiator = 0, Sender = 0, Visited = [0]\<rparr>,
         \<lparr>SessionID = 7, Initiator = 0, Sender = 0, Visited = [0]\<rparr>])) = 1"
    by (simp add: forwards_for_def handleProbe_def ring4_def NewProcess_def flag_def)
  show ?thesis
    using C2_forward_at_most_once[of 7 "ring4_closing ! 1"
            "[\<lparr>SessionID = 7, Initiator = 0, Sender = 0, Visited = [0]\<rparr>,
              \<lparr>SessionID = 7, Initiator = 0, Sender = 0, Visited = [0]\<rparr>]"]
          f l e r
    by blast
qed

subsection \<open>The chain without a closing edge\<close>




















subsection \<open>The cost of a traversal\<close>

text \<open>
  Every process of the table has its neighbour list walked at most once, so the
  number of probes a traversal counts is at most the number of edges of the table.
  \<open>potential\<close> is the number of edges that leave the processes not yet marked.
\<close>

definition degree :: "Process list \<Rightarrow> int \<Rightarrow> nat" where
  "degree ps i = length (Neighbors (ps ! nat i))"

definition total_edges :: "Process list \<Rightarrow> nat" where
  "total_edges ps = sum_list (map (\<lambda>p. length (Neighbors p)) ps)"

definition potential :: "Process list \<Rightarrow> ddfs \<Rightarrow> nat" where
  "potential ps st = sum (degree ps) (unvisited ps st)"

lemma total_edges_sum: "total_edges ps = sum (degree ps) {0..<int (length ps)}"
proof -
  have "sum (degree ps) {0..<int (length ps)} = sum (degree ps) (int ` {0..<length ps})"
    by (simp add: image_int_atLeastLessThan)
  also have "\<dots> = sum (\<lambda>k. degree ps (int k)) {0..<length ps}"
    by (simp add: sum.reindex)
  also have "\<dots> = sum (\<lambda>k. length (Neighbors (ps ! k))) {0..<length ps}"
    by (simp add: degree_def)
  also have "\<dots> = total_edges ps"
    by (simp add: total_edges_def sum_list_sum_nth)
  finally show ?thesis by simp
qed

lemma potential_mark_in:
  assumes "0 \<le> c" "c < int (length ps)" "\<not> flag (visited st) c"
  shows "potential ps (st\<lparr>visited := (visited st)(c \<mapsto> True)\<rparr>) + degree ps c = potential ps st"
proof -
  have in_: "c \<in> unvisited ps st" using assms by (simp add: unvisited_def)
  have "sum (degree ps) (unvisited ps st) = degree ps c + sum (degree ps) (unvisited ps st - {c})"
    using finite_unvisited in_ by (rule sum.remove)
  then show ?thesis by (simp add: potential_def unvisited_mark)
qed

lemma potential_mark_out:
  assumes "c < 0 \<or> int (length ps) \<le> c \<or> flag (visited st) c"
  shows "potential ps (st\<lparr>visited := (visited st)(c \<mapsto> True)\<rparr>) = potential ps st"
proof -
  have "c \<notin> unvisited ps st" using assms by (auto simp: unvisited_def)
  then show ?thesis by (simp add: potential_def unvisited_mark)
qed

lemma potential_counter [simp]:
  "potential ps (st\<lparr>messageCounts := m, localCounter := n\<rparr>) = potential ps st"
  by (simp add: potential_def unvisited_def)

lemma runDDFS_cost:
  "localCounter (snd (runDDFS ps origin current st)) + int (potential ps (snd (runDDFS ps origin current st)))
     \<le> localCounter st + int (potential ps st)
        + (if 0 \<le> current \<and> current < int (length ps) \<and> flag (visited st) current
           then int (degree ps current) else 0)"
  "localCounter (snd (runDDFS_loop ps origin current ns st))
       + int (potential ps (snd (runDDFS_loop ps origin current ns st)))
     \<le> localCounter st + int (potential ps st) + int (length ns)"
proof (induct ps origin current st and ps origin current ns st rule: runDDFS_runDDFS_loop.induct)
  case (1 ps origin current st)
  define st1 where "st1 = st\<lparr>visited := (visited st)(current \<mapsto> True)\<rparr>"
  have lc: "localCounter st1 = localCounter st" by (simp add: st1_def)
  show ?case
  proof (cases "current < 0 \<or> int (length ps) \<le> current")
    case True
    then have "potential ps st1 = potential ps st" unfolding st1_def by (intro potential_mark_out) auto
    then show ?thesis using True lc by (simp add: runDDFS.simps Let_def st1_def[symmetric])
  next
    case False
    have run: "runDDFS ps origin current st = runDDFS_loop ps origin current (Neighbors (ps ! nat current)) st1"
      using False by (simp add: runDDFS.simps Let_def st1_def)
    note ih = 1[OF st1_def False]
    show ?thesis
    proof (cases "flag (visited st) current")
      case True
      then have "potential ps st1 = potential ps st" unfolding st1_def by (intro potential_mark_out) auto
      then show ?thesis using ih run lc True False by (simp add: degree_def)
    next
      case nv: False
      have "potential ps st1 + degree ps current = potential ps st"
        unfolding st1_def using False nv by (intro potential_mark_in) auto
      then show ?thesis using ih run lc nv False by (simp add: degree_def)
    qed
  qed
next
  case (2 ps origin current st)
  show ?case by simp
next
  case (3 ps origin current neighbor rest st)
  define st1 where "st1 = st\<lparr>messageCounts := (messageCounts st)(origin \<mapsto> count (messageCounts st) origin + 1),
                    localCounter := localCounter st + 1\<rparr>"
  have lc: "localCounter st1 = localCounter st + 1" and pt: "potential ps st1 = potential ps st"
    and v1: "visited st1 = visited st"
    by (simp_all add: st1_def)
  show ?case
  proof (cases "neighbor = origin")
    case True
    then show ?thesis using lc pt by (simp add: Let_def st1_def[symmetric])
  next
    case ne: False
    show ?thesis
    proof (cases "flag (visited st1) neighbor")
      case True
      then show ?thesis using 3(3)[OF st1_def ne] ne lc pt
        by (simp add: Let_def st1_def[symmetric])
    next
      case nv: False
      obtain r st2 where run: "runDDFS ps origin neighbor st1 = (r, st2)"
        by (cases "runDDFS ps origin neighbor st1")
      have c1: "localCounter st2 + int (potential ps st2) \<le> localCounter st1 + int (potential ps st1)"
        using 3(1)[OF st1_def ne nv] run nv by simp
      show ?thesis
      proof (cases "r = Inr False")
        case True
        define b where "b = False"
        have rb: "r = Inr b" "b = False" using True by (simp_all add: b_def)
        have "localCounter (snd (runDDFS_loop ps origin current rest st2))
                + int (potential ps (snd (runDDFS_loop ps origin current rest st2)))
              \<le> localCounter st2 + int (potential ps st2) + int (length rest)"
          using 3(2)[OF st1_def ne nv run[symmetric] rb] .
        then show ?thesis using c1 lc pt ne nv run True
          by (simp add: Let_def st1_def[symmetric])
      next
        case False
        then have "runDDFS_loop ps origin current (neighbor # rest) st = (r, st2)"
          using ne nv run by (auto simp: Let_def st1_def[symmetric] split: sum.splits bool.splits)
        then show ?thesis using c1 lc pt by simp
      qed
    qed
  qed
qed

lemma runDDFS_cost_total:
  "localCounter (snd (runDDFS ps origin current st)) \<le> localCounter st + int (total_edges ps)"
proof -
  let ?in = "0 \<le> current \<and> current < int (length ps) \<and> flag (visited st) current"
  have sub: "unvisited ps st \<subseteq> {0..<int (length ps)}" by (auto simp: unvisited_def)
  have "potential ps st + (if ?in then degree ps current else 0) \<le> total_edges ps"
  proof (cases ?in)
    case True
    then have "insert current (unvisited ps st) \<subseteq> {0..<int (length ps)}"
      and "current \<notin> unvisited ps st"
      using sub by (auto simp: unvisited_def)
    then have a: "sum (degree ps) (insert current (unvisited ps st)) \<le> sum (degree ps) {0..<int (length ps)}"
      and b: "sum (degree ps) (insert current (unvisited ps st)) = degree ps current + potential ps st"
    proof -
      assume s: "insert current (unvisited ps st) \<subseteq> {0..<int (length ps)}"
        and n: "current \<notin> unvisited ps st"
      show "sum (degree ps) (insert current (unvisited ps st)) \<le> sum (degree ps) {0..<int (length ps)}"
        using s by (intro sum_mono2) auto
      show "sum (degree ps) (insert current (unvisited ps st)) = degree ps current + potential ps st"
        using n finite_unvisited[of ps st] by (simp add: potential_def)
    qed
    then show ?thesis using True by (simp add: total_edges_sum)
  next
    case False
    have "sum (degree ps) (unvisited ps st) \<le> sum (degree ps) {0..<int (length ps)}"
      using sub by (intro sum_mono2) auto
    then show ?thesis using False by (auto simp: total_edges_sum potential_def)
  qed
  then have "int (potential ps st) + (if ?in then int (degree ps current) else 0) \<le> int (total_edges ps)"
    by (auto split: if_splits)
  then show ?thesis using runDDFS_cost(1)[of ps origin current st] by linarith
qed


lemma cmh_main_present: "dependents_present cmh_main_processes"
  by (auto simp: dependents_present_def cmh_main_processes_def split: if_splits)

lemma main_in_range: "neighbors_in_range main_processes"
  by (simp add: neighbors_in_range_def main_processes_def)

lemma runDDFS_outcomes:
  "fst (runDDFS ps origin current st) \<in> {Inr True, Inr False, Inl IndexOutOfRange}"
  "fst (runDDFS_loop ps origin current ns st) \<in> {Inr True, Inr False, Inl IndexOutOfRange}"
proof (induct ps origin current st and ps origin current ns st rule: runDDFS_runDDFS_loop.induct)
  case (1 ps origin current st)
  then show ?case by (simp add: runDDFS.simps Let_def)
next
  case (2 ps origin current st)
  show ?case by simp
next
  case (3 ps origin current neighbor rest st)
  define st1 where "st1 = st\<lparr>messageCounts := (messageCounts st)(origin \<mapsto> count (messageCounts st) origin + 1),
                    localCounter := localCounter st + 1\<rparr>"
  show ?case
  proof (cases "neighbor = origin")
    case True
    then show ?thesis by (simp add: Let_def)
  next
    case ne: False
    show ?thesis
    proof (cases "flag (visited st1) neighbor")
      case True
      then show ?thesis using 3(3)[OF st1_def ne] ne by (simp add: Let_def st1_def[symmetric])
    next
      case nv: False
      obtain r st2 where run: "runDDFS ps origin neighbor st1 = (r, st2)"
        by (cases "runDDFS ps origin neighbor st1")
      have r: "r \<in> {Inr True, Inr False, Inl IndexOutOfRange}"
        using 3(1)[OF st1_def ne nv] run by simp
      show ?thesis
      proof (cases "r = Inr False")
        case True
        define b where "b = False"
        have rb: "r = Inr b" "b = False" using True by (simp_all add: b_def)
        show ?thesis using 3(2)[OF st1_def ne nv run[symmetric] rb] ne nv run True
          by (simp add: Let_def st1_def[symmetric])
      next
        case False
        then have "runDDFS_loop ps origin current (neighbor # rest) st = (r, st2)"
          using ne nv run by (auto simp: Let_def st1_def[symmetric] split: sum.splits bool.splits)
        then show ?thesis using r by simp
      qed
    qed
  qed
qed

lemma sendProbe_outcomes:
  "fst (sendProbe probeSender origin target ps) \<in> {Inr True, Inr False, Inl NilDereference}"
  "fst (sendProbe_loop origin target ds ps) \<in> {Inr True, Inr False, Inl NilDereference}"
proof (induct probeSender origin target ps and origin target ds ps rule: sendProbe_sendProbe_loop.induct)
  case (1 probeSender origin target ps)
  then show ?case by (auto simp: sendProbe.simps split: option.splits)
next
  case (2 origin target ps)
  show ?case by simp
next
  case (3 origin target dependent rest ps)
  show ?case
  proof (cases "dependent = origin")
    case True
    then show ?thesis by simp
  next
    case ne: False
    show ?thesis
    proof (cases "fmlookup ps target")
      case None
      then show ?thesis using ne by simp
    next
      case (Some p)
      show ?thesis
      proof (cases "flag (receivedProbes p) dependent")
        case True
        then show ?thesis using 3(3)[OF ne Some] ne Some by simp
      next
        case nv: False
        define ps1 where "ps1 = fmupd target (p\<lparr>receivedProbes := (receivedProbes p)(dependent \<mapsto> True)\<rparr>) ps"
        obtain r ps2 where run: "sendProbe target origin dependent ps1 = (r, ps2)"
          by (cases "sendProbe target origin dependent ps1")
        have r: "r \<in> {Inr True, Inr False, Inl NilDereference}"
          using 3(1)[OF ne Some nv ps1_def] run by simp
        show ?thesis
        proof (cases "r = Inr False")
          case True
          define b where "b = False"
          have rb: "r = Inr b" "b = False" using True by (simp_all add: b_def)
          show ?thesis using 3(2)[OF ne Some nv ps1_def run[symmetric] rb] ne Some nv run True
            by (simp add: ps1_def[symmetric])
        next
          case False
          then have "sendProbe_loop origin target (dependent # rest) ps = (r, ps2)"
            using ne Some nv run by (auto simp: ps1_def[symmetric] split: sum.splits bool.splits)
          then show ?thesis using r by simp
        qed
      qed
    qed
  qed
qed

text \<open>A table with a neighbour id that is no index, and one with a dependent that is no key.\<close>

definition dangling_processes :: "Process list" where
  "dangling_processes = [\<lparr>ID = 0, Neighbors = [7]\<rparr>]"

definition cmh_dangling_processes :: cmh_processes where
  "cmh_dangling_processes =
     fmupd 1 \<lparr>pid = 1, waitingFor = [2], receivedProbes = Map.empty\<rparr>
    (fmupd 2 \<lparr>pid = 2, waitingFor = [9], receivedProbes = Map.empty\<rparr> fmempty)"

text \<open>
  \<open>C8\<close>, as the specification states it, has every detection attempt end in one of
  two outcomes, confirmed with a path or not confirmed.  No variant returns a path,
  and an attempt can end in a third way: on a table with a neighbour id that is no
  index the traversal panics, and so does the recursive probe on a table with a
  dependent that is no key.
\<close>

theorem C8_attempt_ends_in_panic:
  "DetectDeadlock \<lparr>processes = dangling_processes, globalMessageCounter = 0\<rparr> \<lparr>ProcessID = 0\<rparr> zero_response
     = Inl IndexOutOfRange
   \<and> fst (runDDFS dangling_processes 0 0 zero_ddfs) \<notin> {Inr True, Inr False}
   \<and> fst (sendProbe 1 1 2 cmh_dangling_processes) = Inl NilDereference
   \<and> fst (detectDeadlock [1, 2] cmh_dangling_processes) \<notin> {Inr True, Inr False}"
  by (simp add: DetectDeadlock_def runDDFS.simps sendProbe.simps dangling_processes_def
                cmh_dangling_processes_def zero_response_def zero_ddfs_def Let_def flag_def count_def)

text \<open>
  \<open>C8\<close>, amended: a detection attempt never hangs.  The traversal of the RPC server
  and the recursive probe are total: every argument lies in the domain of the
  recursion (each call marks a process, or an edge, that was not marked).  An attempt
  ends confirmed, not confirmed, or in a panic, and the result is a boolean, without a
  path; on a table whose ids all exist and from a start inside the table it ends
  confirmed or not confirmed.  The traversal counts at most as many probes as the
  table has edges.
\<close>

theorem C8_detection_terminates:
  "runDDFS_runDDFS_loop_dom (Inl (ps, origin, current, st))
   \<and> localCounter (snd (runDDFS ps origin current st)) \<le> localCounter st + int (total_edges ps)
   \<and> (neighbors_in_range ps \<and> 0 \<le> current \<and> current < int (length ps) \<longrightarrow>
        fst (runDDFS ps origin current st) \<in> {Inr True, Inr False})
   \<and> sendProbe_sendProbe_loop_dom (Inl (probeSender, origin', target, cps))
   \<and> grows cps (snd (sendProbe probeSender origin' target cps))
   \<and> (dependents_present cps \<and> fmlookup cps target \<noteq> None \<longrightarrow>
        fst (sendProbe probeSender origin' target cps) \<in> {Inr True, Inr False})
   \<and> fst (runDDFS ps origin current st) \<in> {Inr True, Inr False, Inl IndexOutOfRange}
   \<and> fst (sendProbe probeSender origin' target cps) \<in> {Inr True, Inr False, Inl NilDereference}"
proof -
  have 1: "runDDFS_runDDFS_loop_dom (Inl (ps, origin, current, st))"
    using runDDFS_total by blast
  have 2: "sendProbe_sendProbe_loop_dom (Inl (probeSender, origin', target, cps))"
    using sendProbe_total by blast
  have 3: "fst (runDDFS ps origin current st) \<in> {Inr True, Inr False}"
    if "neighbors_in_range ps" "0 \<le> current" "current < int (length ps)"
  proof -
    have "\<not> isl (fst (runDDFS ps origin current st))" using runDDFS_no_panic(1)[OF that] .
    then obtain b where "fst (runDDFS ps origin current st) = Inr b"
      by (cases "fst (runDDFS ps origin current st)") auto
    then show ?thesis by (cases b) auto
  qed
  have 4: "fst (sendProbe probeSender origin' target cps) \<in> {Inr True, Inr False}"
    if "dependents_present cps" "fmlookup cps target \<noteq> None"
  proof -
    have "\<not> isl (fst (sendProbe probeSender origin' target cps))"
      using sendProbe_no_panic(1)[OF that] .
    then obtain b where "fst (sendProbe probeSender origin' target cps) = Inr b"
      by (cases "fst (sendProbe probeSender origin' target cps)") auto
    then show ?thesis by (cases b) auto
  qed
  have 5: "fst (runDDFS ps origin current st) \<in> {Inr True, Inr False, Inl IndexOutOfRange}"
    by (rule runDDFS_outcomes(1))
  have 6: "fst (sendProbe probeSender origin' target cps) \<in> {Inr True, Inr False, Inl NilDereference}"
    by (rule sendProbe_outcomes(1))
  have 7: "localCounter (snd (runDDFS ps origin current st)) \<le> localCounter st + int (total_edges ps)"
    by (rule runDDFS_cost_total)
  have 8: "grows cps (snd (sendProbe probeSender origin' target cps))"
    by (rule sendProbe_grows(1))
  show ?thesis using 1 2 3 4 5 6 7 8 by blast
qed

theorem C8_detection_terminates_witness:
  "neighbors_in_range main_processes \<and> (0::int) \<le> 0 \<and> 0 < int (length main_processes)
   \<and> runDDFS_runDDFS_loop_dom (Inl (main_processes, 0, 0, zero_ddfs))
   \<and> fst (runDDFS main_processes 0 0 zero_ddfs) \<in> {Inr True, Inr False}
   \<and> localCounter (snd (runDDFS main_processes 0 0 zero_ddfs)) \<le> 4
   \<and> dependents_present cmh_main_processes \<and> fmlookup cmh_main_processes 2 \<noteq> None
   \<and> sendProbe_sendProbe_loop_dom (Inl (1, 1, 2, cmh_main_processes))
   \<and> fst (sendProbe 1 1 2 cmh_main_processes) \<in> {Inr True, Inr False}"
proof -
  have r: "(0::int) \<le> 0 \<and> 0 < int (length main_processes)" by (simp add: main_processes_def)
  have l: "fmlookup cmh_main_processes 2 \<noteq> None" by (simp add: cmh_main_processes_def)
  have t: "localCounter zero_ddfs + int (total_edges main_processes) = 4"
    by (simp add: zero_ddfs_def total_edges_def main_processes_def)
  show ?thesis
    using C8_detection_terminates[of main_processes 0 0 zero_ddfs 1 1 2 cmh_main_processes]
          main_in_range cmh_main_present r l t
    by simp
qed

section \<open>The path of a probe in memory\<close>

text \<open>
  The field \<^verbatim>\<open>Visited\<close> is a slice: a pointer to a backing array, a length and a
  capacity.  A probe sent on a channel is copied with its slice header, so the copies
  share the backing array.  \<^verbatim>\<open>append\<close> writes the new element into the backing array
  when the capacity allows it, and allocates a larger array otherwise.  The memory is
  the list of the backing arrays allocated so far, the address of an array its index;
  a new array gets twice the capacity of the old one (what Go's runtime does for a
  short slice of ints, so that the capacities of a growing path are 1, 2, 4, 8).
\<close>

record slice =
  base :: nat
  len :: nat
  cap :: nat

type_synonym memory = "int list list"

definition elems :: "memory \<Rightarrow> slice \<Rightarrow> int list" where
  "elems mem s = take (len s) (mem ! base s)"

definition slice_ok :: "memory \<Rightarrow> slice \<Rightarrow> bool" where
  "slice_ok mem s = (base s < length mem \<and> len s \<le> cap s \<and> cap s = length (mem ! base s))"

text \<open>The composite literal \<^verbatim>\<open>[]int{x}\<close>, and \<^verbatim>\<open>append(s, x)\<close>.\<close>

definition literal1 :: "memory \<Rightarrow> int \<Rightarrow> memory \<times> slice" where
  "literal1 mem x = (mem @ [[x]], \<lparr>base = length mem, len = 1, cap = 1\<rparr>)"

definition go_append :: "memory \<Rightarrow> slice \<Rightarrow> int \<Rightarrow> memory \<times> slice" where
  "go_append mem s x =
     (if len s < cap s then
        (mem[base s := (mem ! base s)[len s := x]], s\<lparr>len := len s + 1\<rparr>)
      else
        (let c = (if cap s = 0 then 1 else 2 * cap s) in
         (mem @ [elems mem s @ x # replicate (c - len s - 1) 0],
          \<lparr>base = length mem, len = len s + 1, cap = c\<rparr>)))"

record MProbe =
  m_SessionID :: int
  m_Initiator :: int
  m_Sender :: int
  m_Visited :: slice

datatype m_outcome = MReport int "int list" | MForward MProbe | MDrop

text \<open>The probe as a value: its path is what the slice holds in the given memory.\<close>

definition probe_of :: "memory \<Rightarrow> MProbe \<Rightarrow> Probe" where
  "probe_of mem q =
     \<lparr>SessionID = m_SessionID q, Initiator = m_Initiator q, Sender = m_Sender q,
      Visited = elems mem (m_Visited q)\<rparr>"

fun outcome_of :: "memory \<Rightarrow> m_outcome \<Rightarrow> outcome" where
  "outcome_of mem (MReport i path) = Report i path"
| "outcome_of mem (MForward q) = Forward (probe_of mem q)"
| "outcome_of mem MDrop = Drop"

text \<open>The probe that \<^verbatim>\<open>Run\<close> builds, and one iteration of \<^verbatim>\<open>handleProbes\<close>, in memory.\<close>

definition Run_probe :: "memory \<Rightarrow> Actor \<Rightarrow> int \<Rightarrow> memory \<times> MProbe" where
  "Run_probe mem p sessionID =
     (case literal1 mem (actor_ID p) of
        (mem', s) \<Rightarrow>
          (mem', \<lparr>m_SessionID = sessionID, m_Initiator = actor_ID p, m_Sender = actor_ID p,
                  m_Visited = s\<rparr>))"

definition handleProbe_mem :: "memory \<Rightarrow> Actor \<Rightarrow> MProbe \<Rightarrow> memory \<times> Actor \<times> m_outcome" where
  "handleProbe_mem mem p probe =
     (if m_Initiator probe = actor_ID p \<and> \<not> flag (deadlockCache p) (m_SessionID probe) then
        (mem, p\<lparr>deadlockCache := (deadlockCache p)(m_SessionID probe \<mapsto> True)\<rparr>,
         MReport (actor_ID p) (elems mem (m_Visited probe)))
      else if \<not> flag (actor_visited p) (m_SessionID probe) \<and> length (successors p) > 0 then
        (case go_append mem (m_Visited probe) (actor_ID p) of
           (mem', s) \<Rightarrow>
             (mem', p\<lparr>actor_visited := (actor_visited p)(m_SessionID probe \<mapsto> True)\<rparr>,
              MForward \<lparr>m_SessionID = m_SessionID probe, m_Initiator = m_Initiator probe,
                        m_Sender = actor_ID p, m_Visited = s\<rparr>))
      else (mem, p, MDrop))"

lemma go_append_elems:
  assumes "slice_ok mem s" "go_append mem s x = (mem', s')"
  shows "elems mem' s' = elems mem s @ [x]" and "elems mem' s = elems mem s" and "slice_ok mem' s'"
proof -
  show "elems mem' s' = elems mem s @ [x]"
  proof (cases "len s < cap s")
    case True
    then show ?thesis using assms
      by (auto simp: go_append_def elems_def slice_ok_def take_Suc_conv_app_nth)
  next
    case False
    then show ?thesis using assms
      by (auto simp: go_append_def elems_def slice_ok_def Let_def)
  qed
  show "elems mem' s = elems mem s"
  proof (cases "len s < cap s")
    case True
    then show ?thesis using assms
      by (auto simp: go_append_def elems_def slice_ok_def)
  next
    case False
    then show ?thesis using assms
      by (auto simp: go_append_def elems_def slice_ok_def Let_def nth_append)
  qed
  show "slice_ok mem' s'"
  proof (cases "len s < cap s")
    case True
    then show ?thesis using assms
      by (auto simp: go_append_def slice_ok_def)
  next
    case False
    then show ?thesis using assms
      by (auto simp: go_append_def slice_ok_def Let_def elems_def Suc_le_eq)
  qed
qed

text \<open>
  At the moment a probe is handled, the handler in memory does what the handler on
  values does: the received probe reads as before, and the new probe reads as the
  received path with the id of the process appended.
\<close>

lemma handleProbe_mem_refines:
  assumes "slice_ok mem (m_Visited q)" "handleProbe_mem mem p q = (mem', p', out)"
  shows "handleProbe p (probe_of mem q) = (p', outcome_of mem' out)"
    and "probe_of mem' q = probe_of mem q"
proof -
  obtain m1 s1 where ap: "go_append mem (m_Visited q) (actor_ID p) = (m1, s1)"
    by (cases "go_append mem (m_Visited q) (actor_ID p)")
  note e = go_append_elems[OF assms(1) ap]
  show "handleProbe p (probe_of mem q) = (p', outcome_of mem' out)"
    using assms(2) ap e(1)
    by (auto simp: handleProbe_mem_def handleProbe_def probe_of_def split: if_splits)
  show "probe_of mem' q = probe_of mem q"
    using assms(2) ap e(2)
    by (auto simp: handleProbe_mem_def probe_of_def split: if_splits)
qed


text \<open>
  A system in which process 2 has two successors: the edges are 0 to 1, 1 to 2, 2 to 3
  and to 4, 3 to 0, and 4 to 1.  Its only cycle through process 0 is 0, 1, 2, 3.
\<close>

definition fan5 :: "Actor list" where
  "fan5 = [(NewProcess 0)\<lparr>successors := [1]\<rparr>, (NewProcess 1)\<lparr>successors := [2]\<rparr>,
           (NewProcess 2)\<lparr>successors := [3, 4]\<rparr>, (NewProcess 3)\<lparr>successors := [0]\<rparr>,
           (NewProcess 4)\<lparr>successors := [1]\<rparr>]"

text \<open>
  \<open>C9\<close> asks that a probe is immutable once sent.  With a fan-out the code breaks
  that: a probe already sent is overwritten.  Process 0 starts session 7; processes 1
  and 2 forward, and the probe that process 2 sends has three elements in an array of
  capacity four.  Process 3 receives it and forwards the path \<open>[0, 1, 2, 3]\<close>, written
  into that array.  Process 4 receives the same probe and appends its own id into the
  same array: the probe that process 3 has already sent now reads \<open>[0, 1, 2, 4]\<close>, and
  process 0 reports the deadlock with that path, which is no cycle of the system.
\<close>

theorem C9_forwarded_path_overwritten:
  "Run_probe [] (fan5 ! 0) 7
     = ([[0]], \<lparr>m_SessionID = 7, m_Initiator = 0, m_Sender = 0, m_Visited = \<lparr>base = 0, len = 1, cap = 1\<rparr>\<rparr>)
   \<and> (fst (handleProbe_mem [[0]] (fan5 ! 1)
              \<lparr>m_SessionID = 7, m_Initiator = 0, m_Sender = 0, m_Visited = \<lparr>base = 0, len = 1, cap = 1\<rparr>\<rparr>),
        snd (snd (handleProbe_mem [[0]] (fan5 ! 1)
              \<lparr>m_SessionID = 7, m_Initiator = 0, m_Sender = 0, m_Visited = \<lparr>base = 0, len = 1, cap = 1\<rparr>\<rparr>)))
     = ([[0], [0, 1]],
        MForward \<lparr>m_SessionID = 7, m_Initiator = 0, m_Sender = 1, m_Visited = \<lparr>base = 1, len = 2, cap = 2\<rparr>\<rparr>)
   \<and> (fst (handleProbe_mem [[0], [0, 1]] (fan5 ! 2)
              \<lparr>m_SessionID = 7, m_Initiator = 0, m_Sender = 1, m_Visited = \<lparr>base = 1, len = 2, cap = 2\<rparr>\<rparr>),
        snd (snd (handleProbe_mem [[0], [0, 1]] (fan5 ! 2)
              \<lparr>m_SessionID = 7, m_Initiator = 0, m_Sender = 1, m_Visited = \<lparr>base = 1, len = 2, cap = 2\<rparr>\<rparr>)))
     = ([[0], [0, 1], [0, 1, 2, 0]],
        MForward \<lparr>m_SessionID = 7, m_Initiator = 0, m_Sender = 2, m_Visited = \<lparr>base = 2, len = 3, cap = 4\<rparr>\<rparr>)
   \<and> (fst (handleProbe_mem [[0], [0, 1], [0, 1, 2, 0]] (fan5 ! 3)
              \<lparr>m_SessionID = 7, m_Initiator = 0, m_Sender = 2, m_Visited = \<lparr>base = 2, len = 3, cap = 4\<rparr>\<rparr>),
        snd (snd (handleProbe_mem [[0], [0, 1], [0, 1, 2, 0]] (fan5 ! 3)
              \<lparr>m_SessionID = 7, m_Initiator = 0, m_Sender = 2, m_Visited = \<lparr>base = 2, len = 3, cap = 4\<rparr>\<rparr>)))
     = ([[0], [0, 1], [0, 1, 2, 3]],
        MForward \<lparr>m_SessionID = 7, m_Initiator = 0, m_Sender = 3, m_Visited = \<lparr>base = 2, len = 4, cap = 4\<rparr>\<rparr>)
   \<and> Visited (probe_of [[0], [0, 1], [0, 1, 2, 3]]
        \<lparr>m_SessionID = 7, m_Initiator = 0, m_Sender = 3, m_Visited = \<lparr>base = 2, len = 4, cap = 4\<rparr>\<rparr>)
     = [0, 1, 2, 3]
   \<and> (fst (handleProbe_mem [[0], [0, 1], [0, 1, 2, 3]] (fan5 ! 4)
              \<lparr>m_SessionID = 7, m_Initiator = 0, m_Sender = 2, m_Visited = \<lparr>base = 2, len = 3, cap = 4\<rparr>\<rparr>),
        snd (snd (handleProbe_mem [[0], [0, 1], [0, 1, 2, 3]] (fan5 ! 4)
              \<lparr>m_SessionID = 7, m_Initiator = 0, m_Sender = 2, m_Visited = \<lparr>base = 2, len = 3, cap = 4\<rparr>\<rparr>)))
     = ([[0], [0, 1], [0, 1, 2, 4]],
        MForward \<lparr>m_SessionID = 7, m_Initiator = 0, m_Sender = 4, m_Visited = \<lparr>base = 2, len = 4, cap = 4\<rparr>\<rparr>)
   \<and> Visited (probe_of [[0], [0, 1], [0, 1, 2, 4]]
        \<lparr>m_SessionID = 7, m_Initiator = 0, m_Sender = 3, m_Visited = \<lparr>base = 2, len = 4, cap = 4\<rparr>\<rparr>)
     = [0, 1, 2, 4]
   \<and> snd (snd (handleProbe_mem [[0], [0, 1], [0, 1, 2, 4]]
                  ((fan5 ! 0)\<lparr>actor_visited := [7 \<mapsto> True]\<rparr>)
                  \<lparr>m_SessionID = 7, m_Initiator = 0, m_Sender = 3, m_Visited = \<lparr>base = 2, len = 4, cap = 4\<rparr>\<rparr>))
     = MReport 0 [0, 1, 2, 4]"
  by (simp add: Run_probe_def literal1_def handleProbe_mem_def go_append_def elems_def probe_of_def
                fan5_def NewProcess_def flag_def Let_def)

end
